theory Spec2Isabelle
  imports Main "HOL-Library.Sublist" "HOL-Library.AList"
begin

section \<open>JavaScript values\<close>

text \<open>
  The resolver of \<^verbatim>\<open>web/pages/api/graphql.ts\<close> works on untyped JavaScript values
  (\<^verbatim>\<open>any\<close>): filter operands coerced by the GraphQL layer, node properties returned by
  the graph driver, and the promises of the follow-up lookups. Only two failures occur in
  the code that is modelled: a \<^verbatim>\<open>TypeError\<close> (reading a property of \<^verbatim>\<open>null\<close> or
  \<^verbatim>\<open>undefined\<close>) and a rejection coming from the driver.
\<close>

datatype error = TypeError | DriverError string

text \<open>
  \<open>JNum\<close> is a JavaScript number with an integral value in the safe range, up to
  \<open>2^53 - 1\<close> in magnitude, where \<^verbatim>\<open>Number.prototype.toString\<close> gives the decimal
  digits of the value (every GraphQL \<^verbatim>\<open>Int\<close> is one); \<open>JFloat\<close> is any other number,
  the integral ones beyond the safe range included, carried by the text that
  \<^verbatim>\<open>Number.prototype.toString\<close> gives for it (digits, or the exponent form); \<open>JDate\<close> is the driver's \<^verbatim>\<open>Date\<close> class (year, month, day), the value of
  the GraphQL \<^verbatim>\<open>Date\<close> scalar; \<open>JInteger\<close> is the driver's 64-bit \<^verbatim>\<open>Integer\<close> object;
  an object is the list of its own properties in enumeration order; a promise is carried
  by the outcome it settles with.
\<close>

datatype jsval =
    JUndefined
  | JNull
  | JBool bool
  | JNum int
  | JFloat string
  | JStr string
  | JDate int nat nat
  | JInteger int
  | JList "jsval list"
  | JObj "(string \<times> jsval) list"
  | JPromise "error + jsval"

type_synonym props = "(string \<times> jsval) list"

subsection \<open>Conversion to text\<close>

definition digit :: "nat \<Rightarrow> char" where
  "digit n = ''0123456789'' ! (n mod 10)"

function show_nat :: "nat \<Rightarrow> string" where
  "show_nat n = (if n < 10 then [digit n] else show_nat (n div 10) @ [digit n])"
  by pat_completeness auto
termination
  by (relation "measure id") auto

declare show_nat.simps [simp del]

definition show_int :: "int \<Rightarrow> string" where
  "show_int i = (if i < 0 then ''-'' @ show_nat (nat (- i)) else show_nat (nat i))"

text \<open>
  The driver's \<^verbatim>\<open>Date.toString\<close> is the ISO 8601 calendar date: the year padded to four
  digits (to six, with a sign, outside 0..9999), month and day padded to two.
\<close>

definition pad_left :: "nat \<Rightarrow> string \<Rightarrow> string" where
  "pad_left w s = replicate (w - length s) (CHR ''0'') @ s"

definition format_year :: "int \<Rightarrow> string" where
  "format_year y =
     (if y < 0 then ''-'' @ pad_left 6 (show_nat (nat (- y)))
      else if 9999 < y then ''+'' @ pad_left 6 (show_nat (nat y))
      else pad_left 4 (show_nat (nat y)))"

definition date_to_iso :: "int \<Rightarrow> nat \<Rightarrow> nat \<Rightarrow> string" where
  "date_to_iso y m d =
     format_year y @ ''-'' @ pad_left 2 (show_nat m) @ ''-'' @ pad_left 2 (show_nat d)"

fun join :: "string \<Rightarrow> string list \<Rightarrow> string" where
  "join sep [] = []"
| "join sep [x] = x"
| "join sep (x # y # ys) = x @ sep @ join sep (y # ys)"

text \<open>
  \<open>to_string\<close> is the conversion a template literal \<^verbatim>\<open>${v}\<close> applies. An array is
  the comma-joined text of its elements, where \<^verbatim>\<open>null\<close> and \<^verbatim>\<open>undefined\<close> elements
  give the empty text.
\<close>

fun to_string :: "jsval \<Rightarrow> string" where
  "to_string JUndefined = ''undefined''"
| "to_string JNull = ''null''"
| "to_string (JBool b) = (if b then ''true'' else ''false'')"
| "to_string (JNum n) = show_int n"
| "to_string (JFloat s) = s"
| "to_string (JStr s) = s"
| "to_string (JDate y m d) = date_to_iso y m d"
| "to_string (JInteger n) = show_int n"
| "to_string (JList vs) =
     join '','' (map (\<lambda>v. case v of JNull \<Rightarrow> [] | JUndefined \<Rightarrow> [] | _ \<Rightarrow> to_string v) vs)"
| "to_string (JObj ps) = ''[object Object]''"
| "to_string (JPromise r) = ''[object Promise]''"

text \<open>Truthiness, as an \<^verbatim>\<open>if (v)\<close> tests it.\<close>

fun truthy :: "jsval \<Rightarrow> bool" where
  "truthy JUndefined = False"
| "truthy JNull = False"
| "truthy (JBool b) = b"
| "truthy (JNum n) = (n \<noteq> 0)"
| "truthy (JFloat s) = (s \<noteq> ''0'' \<and> s \<noteq> ''NaN'')"
| "truthy (JStr s) = (s \<noteq> [])"
| "truthy _ = True"

text \<open>
  \<^verbatim>\<open>v[i]\<close>: an element of an array, a character of a string, a property of an object;
  \<^verbatim>\<open>undefined\<close> when there is none, and a \<^verbatim>\<open>TypeError\<close> on \<^verbatim>\<open>null\<close> and
  \<^verbatim>\<open>undefined\<close>.
\<close>

fun js_index :: "jsval \<Rightarrow> nat \<Rightarrow> error + jsval" where
  "js_index JUndefined i = Inl TypeError"
| "js_index JNull i = Inl TypeError"
| "js_index (JList vs) i = Inr (if i < length vs then vs ! i else JUndefined)"
| "js_index (JStr s) i = Inr (if i < length s then JStr [s ! i] else JUndefined)"
| "js_index (JObj ps) i = Inr (case map_of ps (show_nat i) of None \<Rightarrow> JUndefined | Some v \<Rightarrow> v)"
| "js_index _ i = Inr JUndefined"

text \<open>\<^verbatim>\<open>obj.name\<close> on an object: the property, or \<^verbatim>\<open>undefined\<close>.\<close>

definition get_prop :: "props \<Rightarrow> string \<Rightarrow> jsval" where
  "get_prop obj name = (case map_of obj name of None \<Rightarrow> JUndefined | Some v \<Rightarrow> v)"

definition hasOwnProperty :: "props \<Rightarrow> string \<Rightarrow> bool" where
  "hasOwnProperty obj name = (map_of obj name \<noteq> None)"

subsection \<open>String operations\<close>

definition endsWith :: "string \<Rightarrow> string \<Rightarrow> bool" where
  "endsWith x s = suffix s x"

text \<open>
  \<^verbatim>\<open>x.split(sep)[0]\<close> for a non-empty separator: the text before the first occurrence of
  \<open>sep\<close>, all of \<open>x\<close> when there is none.
\<close>

fun split0 :: "string \<Rightarrow> string \<Rightarrow> string" where
  "split0 sep [] = []"
| "split0 sep (c # cs) = (if prefix sep (c # cs) then [] else c # split0 sep cs)"

section \<open>The filter compiler\<close>

text \<open>
  A filter is the input object of one category: its entries in the order \<^verbatim>\<open>for ... in\<close>
  enumerates them.
\<close>

type_synonym filter = "(string \<times> jsval) list"

definition dq :: char where
  "dq = CHR 0x22"

text \<open>
  The first statement of the loop body: a \<^verbatim>\<open>Date\<close> operand becomes a one-element array
  holding the text of a \<^verbatim>\<open>date("...")\<close> literal, any other operand is taken as it is.
\<close>

fun filter_values :: "jsval \<Rightarrow> jsval" where
  "filter_values (JDate y m d) = JList [JStr (''date('' @ [dq] @ date_to_iso y m d @ [dq] @ '')'')]"
| "filter_values v = v"

text \<open>One iteration of the loop of \<^verbatim>\<open>create_filter\<close>: the text pushed for the entry.\<close>

definition compile_entry :: "string \<times> jsval \<Rightarrow> error + string" where
  "compile_entry e =
     (let x = fst e; values = filter_values (snd e) in
      if endsWith x ''_GT'' then Inr (''r.'' @ split0 ''_GT'' x @ '' > '' @ to_string values)
      else if endsWith x ''_LT'' then Inr (''r.'' @ split0 ''_LT'' x @ '' < '' @ to_string values)
      else if endsWith x ''_GTE'' then Inr (''r.'' @ split0 ''_GTE'' x @ '' >= '' @ to_string values)
      else if endsWith x ''_LTE'' then Inr (''r.'' @ split0 ''_LTE'' x @ '' <= '' @ to_string values)
      else if endsWith x ''_IN'' then
        (case js_index values 0 of
           Inl err \<Rightarrow> Inl err
         | Inr lo \<Rightarrow>
             (case js_index values 1 of
                Inl err \<Rightarrow> Inl err
              | Inr hi \<Rightarrow>
                  Inr (to_string lo @ '' <= r.'' @ split0 ''_IN'' x @ '' <= '' @ to_string hi)))
      else Inr (''r.'' @ x @ '' = '' @ to_string values))"

fun compile_entries :: "filter \<Rightarrow> error + string list" where
  "compile_entries [] = Inr []"
| "compile_entries (e # es) =
     (case compile_entry e of
        Inl err \<Rightarrow> Inl err
      | Inr s \<Rightarrow> (case compile_entries es of Inl err \<Rightarrow> Inl err | Inr ss \<Rightarrow> Inr (s # ss)))"

definition create_filter :: "filter \<Rightarrow> error + string" where
  "create_filter f =
     (case compile_entries f of Inl err \<Rightarrow> Inl err | Inr ss \<Rightarrow> Inr (join '' AND '' ss))"

section \<open>The path query builder\<close>

record PathFilters =
  movie_filter :: "filter option"
  tv_filter :: "filter option"
  person_filter :: "filter option"

record PathArgs =
  first_person_id :: int
  second_person_id :: int
  filters :: "PathFilters option"

definition nl :: char where
  "nl = CHR 0x0A"

definition match_clause :: "int \<Rightarrow> int \<Rightarrow> string" where
  "match_clause a b =
     ''MATCH'' @ [nl] @
     ''                  (p1:Person {person_id: '' @ show_int a @ ''}),'' @ [nl] @
     ''                  (p2:Person {person_id: '' @ show_int b @ ''}),'' @ [nl] @
     ''                  p = shortestPath((p1)-[*]-(p2))''"

definition movie_clause :: "string \<Rightarrow> string" where
  "movie_clause mf = ''all(r IN [x in nodes(p) where x:Movie] WHERE '' @ mf @ '')''"

definition tv_clause :: "string \<Rightarrow> string" where
  "tv_clause tf = ''all(r IN [x in nodes(p) where x:TvEpisode] WHERE '' @ tf @ '')''"

text \<open>
  The person clause, in two steps: the predicate after \<^verbatim>\<open>WHERE\<close> and the \<^verbatim>\<open>all(...)\<close>
  around it.
\<close>

definition person_where :: "string \<Rightarrow> int \<Rightarrow> int \<Rightarrow> string" where
  "person_where pf a b =
     pf @ '' OR r.person_id = '' @ show_int a @ '' OR r.person_id = '' @ show_int b"

definition person_clause :: "string \<Rightarrow> int \<Rightarrow> int \<Rightarrow> string" where
  "person_clause pf a b =
     ''all(r IN [x in nodes(p) where x:Person] WHERE '' @ person_where pf a b @ '')''"

text \<open>
  \<^verbatim>\<open>_args.filters?.c ? create_filter(_args.filters?.c) : null\<close> for one category \<open>c\<close>;
  an absent filter object gives \<^verbatim>\<open>null\<close> (here \<open>None\<close>).
\<close>

definition category_filter :: "filter option \<Rightarrow> error + string option" where
  "category_filter c =
     (case c of
        None \<Rightarrow> Inr None
      | Some f \<Rightarrow> (case create_filter f of Inl err \<Rightarrow> Inl err | Inr s \<Rightarrow> Inr (Some s)))"

text \<open>
  \<^verbatim>\<open>if (F) { filters.push(...) }\<close> on a compiled filter \<open>F\<close>: \<^verbatim>\<open>null\<close> and the
  empty text are falsy, and then nothing is pushed.
\<close>

definition push_clause :: "(string \<Rightarrow> string) \<Rightarrow> string option \<Rightarrow> string list \<Rightarrow> string list" where
  "push_clause clause F fs =
     (case F of None \<Rightarrow> fs | Some s \<Rightarrow> if s = [] then fs else fs @ [clause s])"

text \<open>A filter object is truthy, an absent one is not.\<close>

definition present :: "filter option \<Rightarrow> bool" where
  "present c = (case c of None \<Rightarrow> False | Some f \<Rightarrow> True)"

definition get_filter :: "PathArgs \<Rightarrow> (PathFilters \<Rightarrow> filter option) \<Rightarrow> filter option" where
  "get_filter args c = (case filters args of None \<Rightarrow> None | Some fs \<Rightarrow> c fs)"

text \<open>
  The statements of \<^verbatim>\<open>build_query\<close> after the three filters are compiled: the
  \<^verbatim>\<open>WHERE\<close> keyword is appended when a filter object is present, the clauses of the
  non-empty compiled filters are joined with \<^verbatim>\<open>AND\<close>.
\<close>

definition assemble_query :: "PathArgs \<Rightarrow> string option \<Rightarrow> string option \<Rightarrow> string option \<Rightarrow> string" where
  "assemble_query args MovieFilter TvFilter PersonFilter =
     (let a = first_person_id args; b = second_person_id args;
          query = match_clause a b;
          query1 =
            (if present (get_filter args person_filter) \<or> present (get_filter args movie_filter)
                \<or> present (get_filter args tv_filter)
             then query @ '' WHERE '' else query);
          filters1 = push_clause movie_clause MovieFilter [];
          filters2 = push_clause tv_clause TvFilter filters1;
          filters3 = push_clause (\<lambda>pf. person_clause pf a b) PersonFilter filters2
      in query1 @ join '' AND '' filters3 @ '' RETURN p'')"

definition build_query :: "PathArgs \<Rightarrow> error + string" where
  "build_query args =
     (case category_filter (get_filter args movie_filter) of
        Inl err \<Rightarrow> Inl err
      | Inr MovieFilter \<Rightarrow>
          (case category_filter (get_filter args tv_filter) of
             Inl err \<Rightarrow> Inl err
           | Inr TvFilter \<Rightarrow>
               (case category_filter (get_filter args person_filter) of
                  Inl err \<Rightarrow> Inl err
                | Inr PersonFilter \<Rightarrow>
                    Inr (assemble_query args MovieFilter TvFilter PersonFilter))))"

section \<open>The declared filter types\<close>

text \<open>
  The GraphQL layer coerces the \<^verbatim>\<open>filters\<close> argument against the input types of
  \<^verbatim>\<open>typeDefs\<close> before the resolver runs, so a filter that reaches \<^verbatim>\<open>create_filter\<close>
  has the fields of its input type, each holding \<^verbatim>\<open>null\<close> or a value of the declared
  type. The three tables are \<^verbatim>\<open>input MovieFilter\<close>, \<^verbatim>\<open>input TvFilter\<close> and
  \<^verbatim>\<open>input PersonFilter\<close>, field by field.
\<close>

datatype gtype = TBoolean | TInt | TFloat | TString | TDate | TList gtype

definition comparisons :: "string \<Rightarrow> gtype \<Rightarrow> (string \<times> gtype) list" where
  "comparisons base t =
     [(base @ ''_GT'', t), (base @ ''_LT'', t), (base @ ''_GTE'', t), (base @ ''_LTE'', t),
      (base @ ''_IN'', TList t)]"

definition MovieFilter_fields :: "(string \<times> gtype) list" where
  "MovieFilter_fields =
     [(''adult'', TBoolean)] @ comparisons ''budget'' TInt @ comparisons ''revenue'' TInt @
     [(''genres'', TList TString), (''imdb_id'', TString), (''movie_id'', TInt)] @
     comparisons ''movie_id'' TInt @
     [(''production_companies'', TList TInt), (''spoken_languages'', TList TString)] @
     comparisons ''release_date'' TDate @
     [(''status'', TString), (''runtime'', TInt)]"

definition TvFilter_fields :: "(string \<times> gtype) list" where
  "TvFilter_fields =
     comparisons ''air_date'' TDate @ [(''episode_id'', TInt)] @
     comparisons ''vote_average'' TFloat @ comparisons ''runtime'' TInt"

definition PersonFilter_fields :: "(string \<times> gtype) list" where
  "PersonFilter_fields =
     [(''adult'', TBoolean)] @ comparisons ''birthday'' TDate @ comparisons ''deathday'' TDate @
     [(''gender'', TInt), (''person_id'', TInt)] @ comparisons ''popularity'' TFloat"

text \<open>The text of a finite number holds digits, a point, a sign and an exponent mark only.\<close>

definition float_text :: "string \<Rightarrow> bool" where
  "float_text s = (s \<noteq> [] \<and> list_all (\<lambda>c. c \<in> set ''0123456789.e+-'') s)"

fun has_type :: "gtype \<Rightarrow> jsval \<Rightarrow> bool" where
  "has_type t JNull = True"
| "has_type TBoolean (JBool b) = True"
| "has_type TInt (JNum n) = (- 2147483648 \<le> n \<and> n \<le> 2147483647)"
| "has_type TFloat (JNum n) = (- 9007199254740991 \<le> n \<and> n \<le> 9007199254740991)"
| "has_type TFloat (JFloat s) = float_text s"
| "has_type TString (JStr s) = True"
| "has_type TDate (JDate y m d) = True"
| "has_type (TList t) (JList vs) = list_all (has_type t) vs"
| "has_type t v = False"

definition conforms :: "(string \<times> gtype) list \<Rightarrow> filter \<Rightarrow> bool" where
  "conforms table f =
     list_all (\<lambda>e. case map_of table (fst e) of None \<Rightarrow> False | Some t \<Rightarrow> has_type t (snd e)) f"

section \<open>Reading a compiled predicate\<close>

text \<open>
  What a compiled predicate requires of a node is decided by the query language, whose
  \<^verbatim>\<open>OR\<close> binds weakest of all operators and is true as soon as one operand is. A
  predicate is therefore satisfied by every node that satisfies one of its top-level
  disjuncts: the pieces between the \<^verbatim>\<open>OR\<close> keywords that stand outside every bracket
  and every string literal. The scanner below finds them. It follows double-quoted
  literals and the nesting of brackets, and gives up (\<open>Unbalanced\<close>, after which nothing
  counts as top-level) on a closing bracket that was never opened and on every character
  that could start a construct it does not follow: a single quote, a backslash, a
  backquote, a slash.
\<close>

datatype lex = Lex nat bool | Unbalanced

fun lex_step :: "lex \<Rightarrow> char \<Rightarrow> lex" where
  "lex_step Unbalanced c = Unbalanced"
| "lex_step (Lex d q) c =
     (if c \<in> set [CHR 0x27, CHR 0x5C, CHR 0x60, CHR ''/''] then Unbalanced
      else if c = dq then Lex d (\<not> q)
      else if q then Lex d q
      else if c \<in> set ''([{'' then Lex (Suc d) q
      else if c \<in> set '')]}'' then (case d of 0 \<Rightarrow> Unbalanced | Suc d' \<Rightarrow> Lex d' q)
      else Lex d q)"

definition lex_run :: "lex \<Rightarrow> string \<Rightarrow> lex" where
  "lex_run st xs = foldl lex_step st xs"

fun split_or :: "lex \<Rightarrow> string \<Rightarrow> string \<Rightarrow> string list" where
  "split_or st acc [] = [rev acc]"
| "split_or st acc (c # cs) =
     (if st = Lex 0 False \<and> prefix '' OR '' (c # cs)
      then rev acc # split_or st [] (drop 3 cs)
      else split_or (lex_step st c) (c # acc) cs)"

definition top_disjuncts :: "string \<Rightarrow> string list" where
  "top_disjuncts body = split_or (Lex 0 False) [] body"

text \<open>
  The predicate of the person clause, read off the text of a query. The clauses are list
  comprehensions \<^verbatim>\<open>all(r IN [x in nodes(p) where x:L] WHERE ...)\<close>, and the person clause
  is the last one pushed: it begins at the last opening square bracket of the query, which
  is followed by \<^verbatim>\<open>x in nodes(p) where x:Person] WHERE\<close>, and its predicate runs from
  there to the bracket that closes \<^verbatim>\<open>all(\<close> before \<^verbatim>\<open>RETURN p\<close>. A query whose last
  comprehension is not over \<^verbatim>\<open>Person\<close> nodes has no person predicate.
\<close>

definition person_head :: string where
  "person_head = ''x in nodes(p) where x:Person] WHERE ''"

definition query_tail :: string where
  "query_tail = '') RETURN p''"

definition person_predicate :: "string \<Rightarrow> string option" where
  "person_predicate q =
     (let t = rev (takeWhile (\<lambda>c. c \<noteq> CHR ''['') (rev q)) in
      if CHR ''['' \<in> set q \<and> prefix person_head t \<and> suffix query_tail t
         \<and> length person_head + length query_tail \<le> length t
      then Some (take (length t - length person_head - length query_tail)
                   (drop (length person_head) t))
      else None)"

text \<open>
  A query exempts the person \<open>pid\<close> from its person clause when the identity test of
  \<open>pid\<close> is a top-level disjunct of the predicate of that clause: a node with that
  \<^verbatim>\<open>person_id\<close> then satisfies the clause whatever the other disjuncts say.
\<close>

definition endpoint_exempt :: "string \<Rightarrow> int \<Rightarrow> bool" where
  "endpoint_exempt q pid =
     (case person_predicate q of
        None \<Rightarrow> False
      | Some body \<Rightarrow> ''r.person_id = '' @ show_int pid \<in> set (top_disjuncts body))"

section \<open>The entity type resolver\<close>

text \<open>\<^verbatim>\<open>MovieOrTvEpisode.__resolveType\<close>; \<open>None\<close> is the \<^verbatim>\<open>null\<close> it returns.\<close>

definition MovieOrTvEpisode_resolveType :: "props \<Rightarrow> string option" where
  "MovieOrTvEpisode_resolveType obj =
     (if truthy (get_prop obj ''movie_id'') then Some ''Movie''
      else if truthy (get_prop obj ''tv_show_id'') then Some ''TvEpisode''
      else None)"

section \<open>Paths and the path decomposer\<close>

text \<open>
  The driver's result classes: a node with its labels and properties, a relationship
  with the identities of the nodes it leaves and enters, and a path as the list of its
  segments, each running from \<open>seg_start\<close> to \<open>seg_end\<close> in the direction of the
  traversal (\<^verbatim>\<open>start\<close>, \<^verbatim>\<open>relationship\<close> and \<^verbatim>\<open>end\<close> in the source).
\<close>

record neo_node =
  identity :: int
  labels :: "string list"
  properties :: props

record neo_relationship =
  r_start :: int
  r_end :: int
  r_type :: string
  r_properties :: props

record path_segment =
  seg_start :: neo_node
  seg_relationship :: neo_relationship
  seg_end :: neo_node

record neo_path =
  segments :: "path_segment list"

record PersonWithRelationships =
  person :: props
  relationship :: props
  project :: props

text \<open>
  The driver is the collaborator the resolver calls: \<open>executeQuery\<close> answers the
  traversal with the paths of its records (field 0 of each record), \<open>session_run\<close> answers
  a lookup with the nodes of its records. Both take the query text and nothing else.
\<close>

record driver =
  executeQuery :: "string \<Rightarrow> error + neo_path list"
  session_run :: "string \<Rightarrow> error + neo_node list"

definition parent_show_query :: "props \<Rightarrow> string" where
  "parent_show_query proj =
     ''MATCH (tvShow:TvShow{tv_id:'' @ to_string (get_prop proj ''tv_show_id'') @
     ''}) RETURN tvShow''"

text \<open>
  The promise \<^verbatim>\<open>driver.session().run(q).then((res) => res.records[0].get(0).properties)\<close>:
  it rejects when the lookup does, and with a \<^verbatim>\<open>TypeError\<close> when the lookup has no
  record.
\<close>

definition parent_show_promise :: "driver \<Rightarrow> string \<Rightarrow> jsval" where
  "parent_show_promise drv q =
     JPromise (case session_run drv q of
                 Inl err \<Rightarrow> Inl err
               | Inr [] \<Rightarrow> Inl TypeError
               | Inr (n # ns) \<Rightarrow> Inr (JObj (properties n)))"

text \<open>
  The \<^verbatim>\<open>if (project.hasOwnProperty("episode_id"))\<close> block, the same in both branches of
  the loop: the project after the assignment to \<^verbatim>\<open>project.parent_show\<close>, and the
  lookups submitted.
\<close>

definition attach_parent_show :: "driver \<Rightarrow> props \<Rightarrow> props \<times> string list" where
  "attach_parent_show drv proj =
     (if hasOwnProperty proj ''episode_id''
      then (AList.update ''parent_show'' (parent_show_promise drv (parent_show_query proj)) proj,
            [parent_show_query proj])
      else (proj, []))"

text \<open>
  The loop over the segments, from index \<open>i\<close> on: the triples pushed and the lookups
  submitted, in order. The code writes \<^verbatim>\<open>parent_show\<close> into the property object of the
  node, which the two segments around a project share; here each triple holds its own
  copy. Both segments assign the promise of the same lookup, so the copies hold what the
  shared object holds as long as the path visits no node twice, which is the case for the
  shortest path the traversal returns.
\<close>

fun decompose :: "driver \<Rightarrow> nat \<Rightarrow> path_segment list \<Rightarrow> PersonWithRelationships list \<times> string list" where
  "decompose drv i [] = ([], [])"
| "decompose drv i (s # ss) =
     (let enriched =
            (if i mod 2 = 0 then attach_parent_show drv (properties (seg_end s))
             else attach_parent_show drv (properties (seg_start s)));
          triple =
            \<lparr>person = (if i mod 2 = 0 then properties (seg_start s) else properties (seg_end s)),
             relationship = r_properties (seg_relationship s),
             project = fst enriched\<rparr>;
          rest = decompose drv (Suc i) ss
      in (triple # fst rest, snd enriched @ snd rest))"

text \<open>
  \<^verbatim>\<open>find_path\<close>: the outcome of the promise it returns, and the queries it submitted to
  the driver, in order.
\<close>

definition find_path :: "driver \<Rightarrow> PathArgs \<Rightarrow> (error + PersonWithRelationships list) \<times> string list" where
  "find_path drv args =
     (case build_query args of
        Inl err \<Rightarrow> (Inl err, [])
      | Inr query \<Rightarrow>
          (case executeQuery drv query of
             Inl err \<Rightarrow> (Inl err, [query])
           | Inr [] \<Rightarrow> (Inl TypeError, [query])
           | Inr (p # ps) \<Rightarrow>
               (let r = decompose drv 0 (segments p) in (Inr (fst r), query # snd r))))"

subsection \<open>Well-formed paths\<close>

text \<open>
  The graph links people to projects only, and the traversal starts at a person: a path
  is a chain of segments, each joining one \<^verbatim>\<open>Person\<close> node and one project node
  (\<^verbatim>\<open>Movie\<close> or \<^verbatim>\<open>TvEpisode\<close>), the first of them starting at a person.
\<close>

definition is_person :: "neo_node \<Rightarrow> bool" where
  "is_person n = (''Person'' \<in> set (labels n))"

definition is_project :: "neo_node \<Rightarrow> bool" where
  "is_project n = ((''Movie'' \<in> set (labels n) \<or> ''TvEpisode'' \<in> set (labels n)) \<and> \<not> is_person n)"

definition person_project_segment :: "path_segment \<Rightarrow> bool" where
  "person_project_segment s =
     ((is_person (seg_start s) \<and> is_project (seg_end s)) \<or>
      (is_project (seg_start s) \<and> is_person (seg_end s)))"

fun chained :: "path_segment list \<Rightarrow> bool" where
  "chained (s # t # ss) = (seg_end s = seg_start t \<and> chained (t # ss))"
| "chained ss = True"

definition wf_path :: "path_segment list \<Rightarrow> bool" where
  "wf_path ss =
     (case ss of
        [] \<Rightarrow> False
      | s # ss' \<Rightarrow> is_person (seg_start s) \<and> chained ss \<and> list_all person_project_segment ss)"

definition person_side :: "path_segment \<Rightarrow> neo_node" where
  "person_side s = (if is_person (seg_start s) then seg_start s else seg_end s)"

definition project_side :: "path_segment \<Rightarrow> neo_node" where
  "project_side s = (if is_person (seg_start s) then seg_end s else seg_start s)"

section \<open>Auxiliary notions\<close>

subsection \<open>Entries that compile\<close>



subsection \<open>Text the scanner passes over\<close>

text \<open>
  A quiet character leaves the scanner in the state it is in and is not the capital O a
  keyword \<^verbatim>\<open>OR\<close> needs. A neutral text holds no capital O and no opening square
  bracket, and brings the scanner back to the state it started in, outside every string
  literal.
\<close>

definition quiet :: "char \<Rightarrow> bool" where
  "quiet c = (c \<notin> set [CHR 0x27, CHR 0x5C, CHR 0x60, CHR ''/'', dq, CHR ''('', CHR ''['', CHR ''{'',
                        CHR '')'', CHR '']'', CHR ''}'', CHR ''O''])"

definition neutral :: "string \<Rightarrow> bool" where
  "neutral xs =
     (CHR ''O'' \<notin> set xs \<and> CHR ''['' \<notin> set xs \<and> (\<forall>d. lex_run (Lex d False) xs = Lex d False))"

section \<open>Example data\<close>

definition example_args :: PathArgs where
  "example_args = \<lparr>first_person_id = 1, second_person_id = 2, filters = None\<rparr>"

definition person1 :: neo_node where
  "person1 = \<lparr>identity = 10, labels = [''Person''],
              properties = [(''name'', JStr ''A''), (''person_id'', JInteger 1)]\<rparr>"

definition person2 :: neo_node where
  "person2 = \<lparr>identity = 11, labels = [''Person''],
              properties = [(''name'', JStr ''B''), (''person_id'', JInteger 2)]\<rparr>"

definition movie1 :: neo_node where
  "movie1 = \<lparr>identity = 20, labels = [''Movie''],
             properties = [(''title'', JStr ''M''), (''movie_id'', JInteger 7)]\<rparr>"

definition episode1 :: neo_node where
  "episode1 = \<lparr>identity = 30, labels = [''TvEpisode''],
               properties = [(''episode_id'', JInteger 5), (''tv_show_id'', JInteger 9)]\<rparr>"

definition cast_edge :: "int \<Rightarrow> int \<Rightarrow> neo_relationship" where
  "cast_edge a b = \<lparr>r_start = a, r_end = b, r_type = ''CAST_FOR'',
                    r_properties = [(''character'', JStr ''X''), (''credit_id'', JStr ''c1'')]\<rparr>"

definition crew_edge :: "int \<Rightarrow> int \<Rightarrow> neo_relationship" where
  "crew_edge a b = \<lparr>r_start = a, r_end = b, r_type = ''CREW_FOR'',
                    r_properties = [(''department'', JStr ''D''), (''job'', JStr ''J''),
                                    (''credit_id'', JStr ''c2'')]\<rparr>"

text \<open>Two people joined by a film, by an episode, and a segment that joins two people.\<close>

definition movie_path :: neo_path where
  "movie_path = \<lparr>segments =
     [\<lparr>seg_start = person1, seg_relationship = cast_edge 10 20, seg_end = movie1\<rparr>,
      \<lparr>seg_start = movie1, seg_relationship = crew_edge 11 20, seg_end = person2\<rparr>]\<rparr>"

definition episode_path :: neo_path where
  "episode_path = \<lparr>segments =
     [\<lparr>seg_start = person1, seg_relationship = cast_edge 10 30, seg_end = episode1\<rparr>,
      \<lparr>seg_start = episode1, seg_relationship = crew_edge 11 30, seg_end = person2\<rparr>]\<rparr>"

definition malformed_path :: neo_path where
  "malformed_path = \<lparr>segments =
     [\<lparr>seg_start = person1, seg_relationship = cast_edge 10 11, seg_end = person2\<rparr>]\<rparr>"

definition show1 :: neo_node where
  "show1 = \<lparr>identity = 40, labels = [''TvShow''],
            properties = [(''name'', JStr ''S''), (''tv_id'', JInteger 9)]\<rparr>"

text \<open>
  A driver that answers every traversal with the same paths and every lookup with the
  same nodes; the one whose lookups find no show; the one whose traversal finds no path.
\<close>

definition fixed_driver :: "neo_path list \<Rightarrow> neo_node list \<Rightarrow> driver" where
  "fixed_driver paths shows = \<lparr>executeQuery = (\<lambda>q. Inr paths), session_run = (\<lambda>q. Inr shows)\<rparr>"

definition dangling_driver :: driver where
  "dangling_driver = fixed_driver [episode_path] []"

definition no_path_driver :: driver where
  "no_path_driver = fixed_driver [] []"

text \<open>Arguments whose movie filter holds text that reads as query syntax.\<close>

definition injection_args :: PathArgs where
  "injection_args = \<lparr>first_person_id = 1, second_person_id = 2,
     filters = Some \<lparr>movie_filter = Some [(''status'', JStr ''1 OR true'')],
                     tv_filter = None, person_filter = None\<rparr>\<rparr>"

text \<open>Arguments with a well-typed person filter, and the text it compiles to.\<close>

definition typed_person_filter :: filter where
  "typed_person_filter = [(''gender'', JNum 1), (''birthday_GTE'', JDate 1980 1 1)]"

definition typed_person_text :: string where
  "typed_person_text = ''r.gender = 1 AND r.birthday >= date('' @ [dq] @ ''1980-01-01'' @ [dq] @ '')''"

definition typed_person_predicate :: string where
  "typed_person_predicate = typed_person_text @ '' OR r.person_id = 1 OR r.person_id = 2''"

definition typed_query :: string where
  "typed_query =
     match_clause 1 2 @ '' WHERE all(r IN [x in nodes(p) where x:Person] WHERE '' @
     typed_person_predicate @ '') RETURN p''"

definition typed_args :: PathArgs where
  "typed_args = \<lparr>first_person_id = 1, second_person_id = 2,
     filters = Some \<lparr>movie_filter = None, tv_filter = None,
                     person_filter = Some typed_person_filter\<rparr>\<rparr>"

text \<open>
  Arguments whose person filter holds a text for \<^verbatim>\<open>gender\<close>, which the declared input
  type excludes, and the query built from them.
\<close>

definition untyped_person_filter :: filter where
  "untyped_person_filter = [(''gender'', JStr ''1) AND (false'')]"

definition untyped_args :: PathArgs where
  "untyped_args = \<lparr>first_person_id = 1, second_person_id = 2,
     filters = Some \<lparr>movie_filter = None, tv_filter = None,
                     person_filter = Some untyped_person_filter\<rparr>\<rparr>"

definition untyped_query :: string where
  "untyped_query =
     match_clause 1 2 @ '' WHERE all(r IN [x in nodes(p) where x:Person] WHERE '' @
     ''r.gender = 1) AND (false OR r.person_id = 1 OR r.person_id = 2) RETURN p''"






section \<open>Properties of the filter compiler\<close>

text \<open>The equations that evaluate the conversions and the compiler on given values.\<close>

lemmas text_eval = show_int_def show_nat.simps digit_def date_to_iso_def format_year_def pad_left_def

lemmas filter_eval = create_filter_def compile_entry_def endsWith_def suffix_to_prefix

subsection \<open>Suffixes\<close>

lemma endsWith_IN_only:
  assumes "endsWith x ''_IN''"
  shows "\<not> endsWith x ''_GT''" "\<not> endsWith x ''_LT''" "\<not> endsWith x ''_GTE''" "\<not> endsWith x ''_LTE''"
  using assms by (auto simp: endsWith_def suffix_def)

text \<open>
  Splitting at \<^verbatim>\<open>_IN\<close> strips the suffix when the base name does not hold \<^verbatim>\<open>_IN\<close>
  itself: no occurrence can begin in the base and end in the suffix.
\<close>

lemma split0_IN: "\<not> sublist ''_IN'' base \<Longrightarrow> split0 ''_IN'' (base @ ''_IN'') = base"
proof (induction base)
  case Nil
  then show ?case by simp
next
  case (Cons c cs)
  then have ih: "split0 ''_IN'' (cs @ ''_IN'') = cs"
    by (simp add: sublist_Cons_right)
  have "\<not> prefix ''_IN'' (c # cs @ ''_IN'')"
  proof (cases cs)
    case Nil
    then show ?thesis by simp
  next
    case c1: (Cons d ds)
    show ?thesis
    proof (cases ds)
      case Nil
      then show ?thesis using c1 by simp
    next
      case (Cons e es)
      have "\<not> prefix ''_IN'' (c # d # e # es)"
        using Cons.prems c1 Cons by (auto simp: sublist_Cons_right)
      then show ?thesis using c1 Cons by auto
    qed
  qed
  then show ?case using ih by simp
qed

text \<open>Every field of the three input types loses exactly its suffix.\<close>

lemma schema_suffix_stripped:
  "list_all (\<lambda>e. list_all (\<lambda>suf. if endsWith (fst e) suf then split0 suf (fst e) @ suf = fst e else True)
                    [''_GT'', ''_LT'', ''_GTE'', ''_LTE'', ''_IN''])
     (MovieFilter_fields @ TvFilter_fields @ PersonFilter_fields)"
  by (simp add: MovieFilter_fields_def TvFilter_fields_def PersonFilter_fields_def comparisons_def
      endsWith_def suffix_to_prefix)

subsection \<open>Comparisons, equalities and their conjunction\<close>

text \<open>
  The first four cases of the \<^verbatim>\<open>switch\<close>, its default, and the final \<^verbatim>\<open>join\<close>: a
  comparison on the field before the suffix, an equality on the field, and the
  conjunction of the compiled entries.
\<close>

lemma compile_entry_comparisons:
  "endsWith x ''_GT'' \<Longrightarrow>
     compile_entry (x, v) = Inr (''r.'' @ split0 ''_GT'' x @ '' > '' @ to_string (filter_values v))"
  "endsWith x ''_LT'' \<Longrightarrow>
     compile_entry (x, v) = Inr (''r.'' @ split0 ''_LT'' x @ '' < '' @ to_string (filter_values v))"
  "endsWith x ''_GTE'' \<Longrightarrow>
     compile_entry (x, v) = Inr (''r.'' @ split0 ''_GTE'' x @ '' >= '' @ to_string (filter_values v))"
  "endsWith x ''_LTE'' \<Longrightarrow>
     compile_entry (x, v) = Inr (''r.'' @ split0 ''_LTE'' x @ '' <= '' @ to_string (filter_values v))"
  by (auto simp: compile_entry_def Let_def endsWith_def suffix_def)

lemma compile_entry_equality:
  assumes "\<not> endsWith x ''_GT''" "\<not> endsWith x ''_LT''" "\<not> endsWith x ''_GTE''"
    "\<not> endsWith x ''_LTE''" "\<not> endsWith x ''_IN''"
  shows "compile_entry (x, v) = Inr (''r.'' @ x @ '' = '' @ to_string (filter_values v))"
  using assms by (simp add: compile_entry_def Let_def)

lemma create_filter_conjunction:
  "compile_entries f = Inr ss \<Longrightarrow> create_filter f = Inr (join '' AND '' ss)"
  by (simp add: create_filter_def)

subsection \<open>Ranges\<close>

text \<open>
  The fifth case of the \<^verbatim>\<open>switch\<close>: an entry whose name is a base field followed by
  \<^verbatim>\<open>_IN\<close>, with two bounds as its operand, compiles to the text
  \<^verbatim>\<open>lo <= r.base <= hi\<close>, the bounds as the template literal converts them. For two
  integers these are their decimal numerals, and the filter that holds just this entry
  compiles to the closed range test on the two bounds.
\<close>

lemma compile_entry_range:
  assumes "\<not> sublist ''_IN'' base"
  shows "compile_entry (base @ ''_IN'', JList [lo, hi]) =
           Inr (to_string lo @ '' <= r.'' @ base @ '' <= '' @ to_string hi)"
  using split0_IN[OF assms]
  by (simp add: compile_entry_def endsWith_def suffix_to_prefix)

lemma create_filter_integer_range:
  assumes "\<not> sublist ''_IN'' base"
  shows "create_filter [(base @ ''_IN'', JList [JNum lo, JNum hi])] =
           Inr (show_int lo @ '' <= r.'' @ base @ '' <= '' @ show_int hi)"
  using compile_entry_range[OF assms, of "JNum lo" "JNum hi"]
  by (simp add: create_filter_def)

text \<open>
  C3: an entry whose name ends in \<^verbatim>\<open>_IN\<close> is to compile to the closed range test that
  requires the base field to lie between the two supplied bounds, for every pair of
  bounds. For two numbers \<^verbatim>\<open>create_filter\<close> does so, as its second result below shows.
  For two dates it splices the bounds as bare text, without the \<^verbatim>\<open>date("...")\<close> literal
  that a single date operand gets: the query language reads \<^verbatim>\<open>2000-01-01\<close> as a
  subtraction of numbers, so the compiled test does not range over the supplied bounds.
\<close>

theorem date_range_not_on_supplied_bounds:
  "create_filter [(''air_date_IN'', JList [JDate 2000 1 1, JDate 2010 12 31])] =
     Inr ''2000-01-01 <= r.air_date <= 2010-12-31'' \<and>
   create_filter [(''runtime_IN'', JList [JNum 30, JNum 60])] = Inr ''30 <= r.runtime <= 60''"
  by (simp add: filter_eval text_eval)

subsection \<open>Dates\<close>

text \<open>
  C7: a date operand is to be compiled as a typed date literal, in \<^verbatim>\<open>_IN\<close> entries
  too. The code wraps an operand that is itself a date, as the second equation shows, and
  misses the dates inside the array of an \<^verbatim>\<open>_IN\<close> entry: the two bounds are spliced as
  bare text, which the query language reads as a subtraction of numbers.
\<close>

theorem date_range_bounds_not_literals:
  "create_filter [(''release_date_IN'', JList [JDate 2000 1 1, JDate 2010 12 31])] =
     Inr ''2000-01-01 <= r.release_date <= 2010-12-31'' \<and>
   create_filter [(''release_date_GTE'', JDate 2000 1 1)] =
     Inr (''r.release_date >= date('' @ [dq] @ ''2000-01-01'' @ [dq] @ '')'')"
  by (simp add: filter_eval text_eval)

subsection \<open>Failures\<close>













section \<open>Properties of the query builder\<close>

subsection \<open>Operands in the query text\<close>

text \<open>
  A text pushed into an array is a contiguous part of the joined array, the text of an
  operand is a contiguous part of the text of its entry, and each clause of
  \<^verbatim>\<open>build_query\<close> holds the compiled filter it is built from.
\<close>

lemma sublist_join: "s \<in> set ss \<Longrightarrow> sublist s (join sep ss)"
proof (induction sep ss rule: join.induct)
  case (1 sep)
  then show ?case by simp
next
  case (2 sep x)
  then show ?case by simp
next
  case (3 sep x y ys)
  show ?case
  proof (cases "s = x")
    case True
    then show ?thesis using sublist_appendI[of x "[]"] by simp
  next
    case False
    with 3 have "sublist s (join sep (y # ys))" by simp
    then show ?thesis by (simp add: sublist_append)
  qed
qed

lemma compile_entries_mem:
  "compile_entries f = Inr ss \<Longrightarrow> e \<in> set f \<Longrightarrow> \<exists>s \<in> set ss. compile_entry e = Inr s"
  by (induction f arbitrary: ss) (auto split: sum.splits)

lemma to_string_filter_values: "sublist (to_string v) (to_string (filter_values v))"
proof (cases v)
  case (JDate y m d)
  have "sublist (date_to_iso y m d) ((''date('' @ [dq]) @ date_to_iso y m d @ ([dq] @ '')''))"
    by (rule sublist_appendI)
  with JDate show ?thesis by simp
qed simp_all

lemma compile_entry_splices:
  assumes "compile_entry (k, v) = Inr s" and "\<not> endsWith k ''_IN''"
  shows "sublist (to_string v) s"
proof -
  have "\<exists>pre. s = pre @ to_string (filter_values v)"
    using assms by (auto simp: compile_entry_def Let_def split: if_splits)
  then obtain pre where "s = pre @ to_string (filter_values v)" ..
  then have "sublist (to_string (filter_values v)) s"
    using sublist_appendI[of _ pre "[]"] by simp
  with to_string_filter_values show ?thesis
    using sublist_order.order_trans by blast
qed

lemma compile_entry_nonempty: "compile_entry e = Inr s \<Longrightarrow> s \<noteq> []"
  by (auto simp: compile_entry_def Let_def split: if_splits sum.splits)

lemma join_nonempty: "s \<in> set ss \<Longrightarrow> s \<noteq> [] \<Longrightarrow> join sep ss \<noteq> []"
  using sublist_join[of s ss sep] by auto

lemma create_filter_splices:
  assumes "create_filter f = Inr t" and "(k, v) \<in> set f" and "\<not> endsWith k ''_IN''"
  shows "sublist (to_string v) t \<and> t \<noteq> []"
proof -
  from assms(1) obtain ss where ss: "compile_entries f = Inr ss" and t: "t = join '' AND '' ss"
    by (auto simp: create_filter_def split: sum.splits)
  from compile_entries_mem[OF ss assms(2)] obtain s where
    s: "s \<in> set ss" "compile_entry (k, v) = Inr s" by blast
  have "sublist (to_string v) s" using s(2) assms(3) by (rule compile_entry_splices)
  moreover have "sublist s t" using s(1) t by (simp add: sublist_join)
  ultimately have "sublist (to_string v) t" using sublist_order.order_trans by blast
  moreover have "t \<noteq> []"
    using t join_nonempty[OF s(1) compile_entry_nonempty[OF s(2)]] by simp
  ultimately show ?thesis by simp
qed

lemma push_clause_mem: "t \<noteq> [] \<Longrightarrow> clause t \<in> set (push_clause clause (Some t) fs)"
  by (simp add: push_clause_def)

lemma push_clause_keeps: "c \<in> set fs \<Longrightarrow> c \<in> set (push_clause clause F fs)"
  by (simp add: push_clause_def split: option.splits)

lemma sublist_assemble:
  assumes "c \<in> set (push_clause (\<lambda>pf. person_clause pf (first_person_id args) (second_person_id args)) P
                      (push_clause tv_clause T (push_clause movie_clause M [])))"
    and "sublist t c"
  shows "sublist t (assemble_query args M T P)"
proof -
  let ?cs = "push_clause (\<lambda>pf. person_clause pf (first_person_id args) (second_person_id args)) P
                      (push_clause tv_clause T (push_clause movie_clause M []))"
  have "sublist c (join '' AND '' ?cs)" using assms(1) by (rule sublist_join)
  with assms(2) have "sublist t (join '' AND '' ?cs)" using sublist_order.order_trans by blast
  then have "sublist t (q1 @ join '' AND '' ?cs @ '' RETURN p'')" for q1
    using sublist_order.order_trans sublist_appendI by blast
  then show ?thesis by (simp add: assemble_query_def Let_def)
qed

lemma sublist_movie_clause: "sublist t (movie_clause t)"
  unfolding movie_clause_def by (rule sublist_appendI)

lemma sublist_tv_clause: "sublist t (tv_clause t)"
  unfolding tv_clause_def by (rule sublist_appendI)

lemma sublist_person_clause: "sublist t (person_clause t a b)"
proof -
  have "sublist t (person_where t a b)"
    unfolding person_where_def using sublist_appendI[of t "[]"] by simp
  moreover have "sublist (person_where t a b) (person_clause t a b)"
    unfolding person_clause_def by (rule sublist_appendI)
  ultimately show ?thesis using sublist_order.order_trans by blast
qed

lemma sublist_ids:
  "sublist (show_int (first_person_id args)) (assemble_query args M T P)"
  "sublist (show_int (second_person_id args)) (assemble_query args M T P)"
proof -
  let ?a = "first_person_id args" and ?b = "second_person_id args"
  have "sublist (show_int ?a) (match_clause ?a ?b)"
    unfolding match_clause_def
    using sublist_appendI[of "show_int ?a" "''MATCH'' @ [nl] @ ''                  (p1:Person {person_id: ''"]
    by simp
  moreover have "sublist (show_int ?b) (match_clause ?a ?b)"
    unfolding match_clause_def
    using sublist_appendI[of "show_int ?b" "''MATCH'' @ [nl] @
     ''                  (p1:Person {person_id: '' @ show_int ?a @ ''}),'' @ [nl] @
     ''                  (p2:Person {person_id: ''"]
    by simp
  moreover have "sublist (match_clause ?a ?b) (assemble_query args M T P)"
    using sublist_appendI[of "match_clause ?a ?b" "[]"]
    by (simp add: assemble_query_def Let_def)
  ultimately show "sublist (show_int ?a) (assemble_query args M T P)"
    and "sublist (show_int ?b) (assemble_query args M T P)"
    using sublist_order.order_trans by blast+
qed

text \<open>
  C1, as the code has it: \<^verbatim>\<open>build_query\<close> returns the query text and nothing else,
  and \<^verbatim>\<open>find_path\<close> hands the driver that text alone; there are no query arguments.
  The two person identifiers and the text of every operand are spliced into the query
  as they are: for every entry of a category filter whose name does not end in
  \<^verbatim>\<open>_IN\<close>, the text of its operand is a contiguous part of the query that is built.
\<close>

theorem build_query_splices_operands:
  assumes "build_query args = Inr q" and "filters args = Some fs"
    and "Some f \<in> {movie_filter fs, tv_filter fs, person_filter fs}"
    and "(k, v) \<in> set f" and "\<not> endsWith k ''_IN''"
  shows "sublist (to_string v) q \<and>
         sublist (show_int (first_person_id args)) q \<and>
         sublist (show_int (second_person_id args)) q"
proof -
  from assms(1) obtain M T P where
    m: "category_filter (get_filter args movie_filter) = Inr M" and
    t: "category_filter (get_filter args tv_filter) = Inr T" and
    p: "category_filter (get_filter args person_filter) = Inr P" and
    q: "q = assemble_query args M T P"
    by (auto simp: build_query_def split: sum.splits)
  let ?pc = "\<lambda>pf. person_clause pf (first_person_id args) (second_person_id args)"
  have "\<exists>c. c \<in> set (push_clause ?pc P (push_clause tv_clause T (push_clause movie_clause M [])))
           \<and> sublist (to_string v) c"
  proof -
    from assms(3) consider "movie_filter fs = Some f" | "tv_filter fs = Some f" | "person_filter fs = Some f"
      by auto
    then show ?thesis
    proof cases
      case 1
      with m assms(2) obtain s where M: "M = Some s" and s: "create_filter f = Inr s"
        by (auto simp: category_filter_def get_filter_def split: sum.splits)
      from create_filter_splices[OF s assms(4,5)] have "sublist (to_string v) s" "s \<noteq> []" by simp_all
      then show ?thesis
        using M push_clause_mem[of s movie_clause "[]"] push_clause_keeps sublist_movie_clause
          sublist_order.order_trans by blast
    next
      case 2
      with t assms(2) obtain s where T: "T = Some s" and s: "create_filter f = Inr s"
        by (auto simp: category_filter_def get_filter_def split: sum.splits)
      from create_filter_splices[OF s assms(4,5)] have "sublist (to_string v) s" "s \<noteq> []" by simp_all
      then show ?thesis
        using T push_clause_mem[of s tv_clause] push_clause_keeps sublist_tv_clause
          sublist_order.order_trans by blast
    next
      case 3
      with p assms(2) obtain s where P: "P = Some s" and s: "create_filter f = Inr s"
        by (auto simp: category_filter_def get_filter_def split: sum.splits)
      from create_filter_splices[OF s assms(4,5)] have "sublist (to_string v) s" "s \<noteq> []" by simp_all
      then show ?thesis
        using P push_clause_mem[of s ?pc] sublist_person_clause
          sublist_order.order_trans by blast
    qed
  qed
  then have "sublist (to_string v) q"
    using q sublist_assemble by blast
  with q sublist_ids show ?thesis by simp
qed


text \<open>
  The claim fails on a movie filter whose \<^verbatim>\<open>status\<close> is the text \<^verbatim>\<open>1 OR true\<close>: the
  operand is part of the query text, where it reads as a disjunction.
\<close>

theorem build_query_injection_counterexample:
  "build_query injection_args =
     Inr (match_clause 1 2 @
          '' WHERE all(r IN [x in nodes(p) where x:Movie] WHERE r.status = 1 OR true) RETURN p'')"
  by (simp add: injection_args_def build_query_def get_filter_def category_filter_def
      filter_eval assemble_query_def present_def push_clause_def movie_clause_def)

text \<open>An instance: the operand of the same filter, found in the query by the theorem.\<close>

theorem build_query_splices_operands_witness:
  "filters injection_args \<noteq> None \<and> \<not> endsWith ''status'' ''_IN'' \<and>
   sublist ''1 OR true'' (match_clause 1 2 @
          '' WHERE all(r IN [x in nodes(p) where x:Movie] WHERE r.status = 1 OR true) RETURN p'')"
proof -
  have f: "filters injection_args = Some \<lparr>movie_filter = Some [(''status'', JStr ''1 OR true'')],
                     tv_filter = None, person_filter = None\<rparr>"
    by (simp add: injection_args_def)
  have e: "\<not> endsWith ''status'' ''_IN''"
    by (simp add: endsWith_def suffix_to_prefix)
  have b: "build_query injection_args =
     Inr (match_clause 1 2 @
          '' WHERE all(r IN [x in nodes(p) where x:Movie] WHERE r.status = 1 OR true) RETURN p'')"
    by (simp add: injection_args_def build_query_def get_filter_def category_filter_def
      filter_eval assemble_query_def present_def push_clause_def movie_clause_def)
  from build_query_splices_operands[OF b f, of "[(''status'', JStr ''1 OR true'')]" "''status''"
      "JStr ''1 OR true''"] e f
  show ?thesis by simp
qed

subsection \<open>The scanner on compiled text\<close>

text \<open>
  The scanner passes over quiet text in any state, and over a \<^verbatim>\<open>date("...")\<close> literal
  from outside a string literal.
\<close>

lemma lex_run_Nil [simp]: "lex_run st [] = st"
  by (simp add: lex_run_def)

lemma lex_run_Cons [simp]: "lex_run st (c # cs) = lex_run (lex_step st c) cs"
  by (simp add: lex_run_def)

lemma lex_run_append: "lex_run st (xs @ ys) = lex_run (lex_run st xs) ys"
  by (simp add: lex_run_def)

lemma quiet_step: "quiet c \<Longrightarrow> lex_step (Lex d q) c = Lex d q"
  by (simp add: quiet_def dq_def)

declare lex_step.simps [simp del]

lemma quiet_run: "list_all quiet xs \<Longrightarrow> lex_run (Lex d q) xs = Lex d q"
  by (induction xs) (simp_all add: quiet_step)

lemma quiet_no_O: "list_all quiet xs \<Longrightarrow> CHR ''O'' \<notin> set xs"
  by (induction xs) (auto simp: quiet_def)

lemma quiet_no_bracket: "list_all quiet xs \<Longrightarrow> CHR ''['' \<notin> set xs"
  by (induction xs) (auto simp: quiet_def)

lemma neutral_quiet: "list_all quiet xs \<Longrightarrow> neutral xs"
  by (simp add: neutral_def quiet_run quiet_no_O quiet_no_bracket)

lemma neutral_append: "neutral xs \<Longrightarrow> neutral ys \<Longrightarrow> neutral (xs @ ys)"
  by (simp add: neutral_def lex_run_append)

lemma neutral_date_literal:
  assumes "list_all quiet txt"
  shows "neutral (''date('' @ [dq] @ txt @ [dq] @ '')'')"
proof -
  have "lex_run (Lex d False) (''date('' @ [dq] @ txt @ [dq] @ '')'') = Lex d False" for d
  proof -
    have 1: "lex_run (Lex d False) (''date('' @ [dq]) = Lex (Suc d) True"
      by (simp add: dq_def lex_step.simps)
    have 2: "lex_run (Lex (Suc d) True) txt = Lex (Suc d) True"
      using assms by (rule quiet_run)
    have 3: "lex_run (Lex (Suc d) True) ([dq] @ '')'') = Lex d False"
      by (simp add: dq_def lex_step.simps)
    have "lex_run (Lex d False) ((''date('' @ [dq]) @ txt @ ([dq] @ '')'')) =
            lex_run (lex_run (lex_run (Lex d False) (''date('' @ [dq])) txt) ([dq] @ '')'')"
      by (simp only: lex_run_append)
    also have "\<dots> = Lex d False"
      by (simp only: 1 2 3)
    finally show ?thesis by simp
  qed
  moreover have "CHR ''O'' \<notin> set (''date('' @ [dq] @ txt @ [dq] @ '')'')"
    using quiet_no_O[OF assms] by (simp add: dq_def)
  moreover have "CHR ''['' \<notin> set (''date('' @ [dq] @ txt @ [dq] @ '')'')"
    using quiet_no_bracket[OF assms] by (simp add: dq_def)
  ultimately show ?thesis by (simp add: neutral_def)
qed

text \<open>
  The text of a number, of a date, of a truth value and of \<^verbatim>\<open>null\<close> is quiet, so
  every operand of a type that the person filter declares compiles to neutral text.
\<close>

lemma quiet_digit: "quiet (digit n)"
proof -
  have "n mod 10 < 10" by simp
  then have "digit n \<in> set ''0123456789''"
    unfolding digit_def by (intro nth_mem) simp
  then show ?thesis by (auto simp: quiet_def dq_def)
qed

lemma quiet_show_nat: "list_all quiet (show_nat n)"
proof (induction n rule: show_nat.induct)
  case (1 n)
  show ?case
  proof (cases "n < 10")
    case True
    then show ?thesis by (subst show_nat.simps) (simp add: quiet_digit)
  next
    case False
    with 1 have "list_all quiet (show_nat (n div 10))" by simp
    with False show ?thesis by (subst show_nat.simps) (simp add: quiet_digit)
  qed
qed

lemma quiet_show_int: "list_all quiet (show_int i)"
  by (simp add: show_int_def quiet_show_nat) (simp add: quiet_def dq_def)

lemma quiet_pad_left: "list_all quiet s \<Longrightarrow> list_all quiet (pad_left w s)"
proof -
  have "quiet (CHR ''0'')" by (simp add: quiet_def dq_def)
  then show "list_all quiet s \<Longrightarrow> list_all quiet (pad_left w s)"
    by (auto simp: pad_left_def list_all_iff)
qed

lemma quiet_date_to_iso: "list_all quiet (date_to_iso y m d)"
proof -
  have "list_all quiet (format_year y)"
    by (simp add: format_year_def quiet_pad_left quiet_show_nat) (simp add: quiet_def dq_def)
  then show ?thesis
    by (simp add: date_to_iso_def quiet_pad_left quiet_show_nat) (simp add: quiet_def dq_def)
qed

lemma quiet_float_text: "float_text s \<Longrightarrow> list_all quiet s"
proof -
  have "c \<in> set ''0123456789.e+-'' \<Longrightarrow> quiet c" for c
    by (auto simp: quiet_def dq_def)
  then show "float_text s \<Longrightarrow> list_all quiet s"
    by (auto simp: float_text_def list_all_iff)
qed

lemma element_text_quiet:
  assumes "t \<in> {TBoolean, TInt, TFloat, TDate}" and "has_type t v"
  shows "list_all quiet (to_string v)"
proof -
  have q: "list_all quiet ''null''" "list_all quiet ''true''" "list_all quiet ''false''"
    by (simp_all add: quiet_def dq_def)
  from assms show ?thesis
    by (cases v; cases t)
      (simp_all add: quiet_show_int quiet_date_to_iso quiet_float_text, simp_all add: quiet_def dq_def)
qed

lemma scalar_text_neutral:
  assumes "t \<in> {TBoolean, TInt, TFloat, TDate}" and "has_type t v"
  shows "neutral (to_string (filter_values v))"
proof (cases v)
  case (JDate y m d)
  then show ?thesis
    using neutral_date_literal[OF quiet_date_to_iso, of y m d] by simp
next
  case JUndefined
  with assms show ?thesis by (cases t) simp_all
next
  case JNull
  then show ?thesis using element_text_quiet[OF assms] by (simp add: neutral_quiet)
next
  case (JBool x3)
  then show ?thesis using element_text_quiet[OF assms] by (simp add: neutral_quiet)
next
  case (JNum x4)
  then show ?thesis using element_text_quiet[OF assms] by (simp add: neutral_quiet)
next
  case (JFloat x5)
  then show ?thesis using element_text_quiet[OF assms] by (simp add: neutral_quiet)
next
  case (JStr x6)
  with assms show ?thesis by (cases t) simp_all
next
  case (JInteger x8)
  with assms show ?thesis by (cases t) simp_all
next
  case (JList x9)
  with assms show ?thesis by (cases t) simp_all
next
  case (JObj x10)
  with assms show ?thesis by (cases t) simp_all
next
  case (JPromise x11)
  with assms show ?thesis by (cases t) simp_all
qed

lemma index_text_quiet:
  assumes "t \<in> {TBoolean, TInt, TFloat, TDate}" and "has_type (TList t) v"
    and "js_index (filter_values v) i = Inr w"
  shows "list_all quiet (to_string w)"
proof -
  from assms(2,3) obtain vs where v: "v = JList vs" and all: "list_all (has_type t) vs"
    by (cases v) auto
  have u: "list_all quiet ''undefined''" by (simp add: quiet_def dq_def)
  show ?thesis
  proof (cases "i < length vs")
    case True
    with all have "has_type t (vs ! i)" by (simp add: list_all_length)
    from element_text_quiet[OF assms(1) this] True v assms(3) show ?thesis by auto
  next
    case False
    with v assms(3) u show ?thesis by auto
  qed
qed

lemma set_split0: "set (split0 sep x) \<subseteq> set x"
  by (induction x) auto

lemma quiet_split0: "list_all quiet x \<Longrightarrow> list_all quiet (split0 sep x)"
  using set_split0[of sep x] by (auto simp: list_all_iff)

text \<open>
  The fields of \<^verbatim>\<open>input PersonFilter\<close>: their names are quiet, the fields named
  \<^verbatim>\<open>_IN\<close> hold lists of dates or numbers, the others hold truth values, numbers or
  dates.
\<close>

lemma person_table_shape:
  "list_all (\<lambda>e. list_all quiet (fst e) \<and>
                 (if endsWith (fst e) ''_IN'' then snd e \<in> {TList TDate, TList TFloat}
                  else snd e \<in> {TBoolean, TInt, TFloat, TDate})) PersonFilter_fields"
  by (simp add: PersonFilter_fields_def comparisons_def quiet_def dq_def endsWith_def
      suffix_to_prefix)

lemma person_table_entry:
  assumes "map_of PersonFilter_fields k = Some t"
  shows "list_all quiet k"
    and "endsWith k ''_IN'' \<Longrightarrow> t \<in> {TList TDate, TList TFloat}"
    and "\<not> endsWith k ''_IN'' \<Longrightarrow> t \<in> {TBoolean, TInt, TFloat, TDate}"
proof -
  from assms have "(k, t) \<in> set PersonFilter_fields" by (rule map_of_SomeD)
  with person_table_shape have
    "list_all quiet (fst (k, t)) \<and>
     (if endsWith (fst (k, t)) ''_IN'' then snd (k, t) \<in> {TList TDate, TList TFloat}
      else snd (k, t) \<in> {TBoolean, TInt, TFloat, TDate})"
    unfolding list_all_iff by blast
  then show "list_all quiet k"
    and "endsWith k ''_IN'' \<Longrightarrow> t \<in> {TList TDate, TList TFloat}"
    and "\<not> endsWith k ''_IN'' \<Longrightarrow> t \<in> {TBoolean, TInt, TFloat, TDate}"
    by (simp_all split: if_splits)
qed

lemma neutral_comparison:
  assumes "list_all quiet base" and "list_all quiet op" and "neutral txt"
  shows "neutral (''r.'' @ base @ op @ txt)"
proof -
  have "list_all quiet ''r.''"
    by (simp add: quiet_def dq_def)
  then have "list_all quiet (''r.'' @ base @ op)"
    using assms(1,2) by simp
  then have "neutral (''r.'' @ base @ op)"
    by (rule neutral_quiet)
  then have "neutral ((''r.'' @ base @ op) @ txt)"
    using assms(3) by (rule neutral_append)
  then show ?thesis by simp
qed

lemma quiet_ops:
  "list_all quiet '' > ''" "list_all quiet '' < ''" "list_all quiet '' >= ''"
  "list_all quiet '' <= ''" "list_all quiet '' = ''" "list_all quiet '' <= r.''"
  "list_all quiet '' AND ''"
  by (simp_all add: quiet_def dq_def)

lemma compile_entry_neutral:
  assumes "map_of PersonFilter_fields k = Some t" and "has_type t v"
    and "compile_entry (k, v) = Inr s"
  shows "neutral s"
proof (cases "endsWith k ''_IN''")
  case True
  note others = endsWith_IN_only[OF True]
  from person_table_entry(2)[OF assms(1) True] obtain t' where
    t: "t = TList t'" and t': "t' \<in> {TBoolean, TInt, TFloat, TDate}" by auto
  from assms(3) True others obtain lo hi where
    lo: "js_index (filter_values v) 0 = Inr lo" and hi: "js_index (filter_values v) 1 = Inr hi"
    and s: "s = to_string lo @ '' <= r.'' @ split0 ''_IN'' k @ '' <= '' @ to_string hi"
    by (auto simp: compile_entry_def Let_def split: sum.splits)
  have "list_all quiet (to_string lo)" "list_all quiet (to_string hi)"
    using index_text_quiet[OF t'] assms(2) t lo hi by blast+
  moreover have "list_all quiet (split0 ''_IN'' k)"
    using person_table_entry(1)[OF assms(1)] by (rule quiet_split0)
  ultimately have "list_all quiet s"
    using s quiet_ops by simp
  then show ?thesis by (rule neutral_quiet)
next
  case False
  from person_table_entry(3)[OF assms(1) False] have "t \<in> {TBoolean, TInt, TFloat, TDate}" .
  then have n: "neutral (to_string (filter_values v))"
    using assms(2) by (rule scalar_text_neutral)
  have k: "list_all quiet k" by (rule person_table_entry(1)[OF assms(1)])
  from assms(3) False consider
      "s = ''r.'' @ split0 ''_GT'' k @ '' > '' @ to_string (filter_values v)"
    | "s = ''r.'' @ split0 ''_LT'' k @ '' < '' @ to_string (filter_values v)"
    | "s = ''r.'' @ split0 ''_GTE'' k @ '' >= '' @ to_string (filter_values v)"
    | "s = ''r.'' @ split0 ''_LTE'' k @ '' <= '' @ to_string (filter_values v)"
    | "s = ''r.'' @ k @ '' = '' @ to_string (filter_values v)"
    by (auto simp: compile_entry_def Let_def split: if_splits)
  then show ?thesis
  proof cases
    case 1
    then show ?thesis using neutral_comparison[OF quiet_split0[OF k] quiet_ops(1) n] by simp
  next
    case 2
    then show ?thesis using neutral_comparison[OF quiet_split0[OF k] quiet_ops(2) n] by simp
  next
    case 3
    then show ?thesis using neutral_comparison[OF quiet_split0[OF k] quiet_ops(3) n] by simp
  next
    case 4
    then show ?thesis using neutral_comparison[OF quiet_split0[OF k] quiet_ops(4) n] by simp
  next
    case 5
    then show ?thesis using neutral_comparison[OF k quiet_ops(5) n] by simp
  qed
qed

lemma neutral_join:
  "list_all neutral ss \<Longrightarrow> neutral (join '' AND '' ss)"
proof (induction "'' AND ''" ss rule: join.induct)
  case 1
  then show ?case by (simp add: neutral_def)
next
  case (2 x)
  then show ?case by simp
next
  case (3 x y ys)
  then have "neutral x" "neutral (join '' AND '' (y # ys))" by simp_all
  moreover have "neutral '' AND ''" using quiet_ops(7) by (rule neutral_quiet)
  ultimately have "neutral (x @ '' AND '' @ join '' AND '' (y # ys))"
    by (intro neutral_append)
  then show ?case by simp
qed

lemma compile_entries_neutral:
  "conforms PersonFilter_fields f \<Longrightarrow> compile_entries f = Inr ss \<Longrightarrow> list_all neutral ss"
proof (induction f arbitrary: ss)
  case Nil
  then show ?case by simp
next
  case (Cons e es)
  from Cons.prems(2) obtain s ss' where
    s: "compile_entry e = Inr s" and ss': "compile_entries es = Inr ss'" and ss: "ss = s # ss'"
    by (auto split: sum.splits)
  from Cons.prems(1) obtain t where
    t: "map_of PersonFilter_fields (fst e) = Some t" "has_type t (snd e)"
    and rest: "conforms PersonFilter_fields es"
    by (auto simp: conforms_def split: option.splits)
  have "neutral s" using compile_entry_neutral[OF t] s by simp
  moreover have "list_all neutral ss'" using Cons.IH[OF rest ss'] .
  ultimately show ?case using ss by simp
qed

lemma create_filter_neutral:
  assumes "conforms PersonFilter_fields f" and "create_filter f = Inr s"
  shows "neutral s"
proof -
  from assms(2) obtain ss where ss: "compile_entries f = Inr ss" and s: "s = join '' AND '' ss"
    by (auto simp: create_filter_def split: sum.splits)
  from compile_entries_neutral[OF assms(1) ss] s show ?thesis by (simp add: neutral_join)
qed

text \<open>
  The split passes over text without a capital O, and cuts at a keyword met at top
  level; so the predicate of the person clause has exactly three top-level disjuncts.
\<close>

lemma split_or_skip:
  "CHR ''O'' \<notin> set xs \<Longrightarrow>
   split_or st acc (xs @ CHR '' '' # ys) = split_or (lex_run st xs) (rev xs @ acc) (CHR '' '' # ys)"
proof (induction xs arbitrary: st acc)
  case Nil
  then show ?case by simp
next
  case (Cons x xs)
  have "\<not> prefix '' OR '' (x # xs @ CHR '' '' # ys)"
    using Cons.prems by (cases xs) auto
  then have np: "\<not> (st = Lex 0 False \<and> prefix '' OR '' (x # xs @ CHR '' '' # ys))"
    by blast
  have "split_or st acc ((x # xs) @ CHR '' '' # ys) =
             split_or (lex_step st x) (x # acc) (xs @ CHR '' '' # ys)"
    by (simp only: append_Cons split_or.simps(2) np if_False)
  also have "\<dots> = split_or (lex_run (lex_step st x) xs) (rev xs @ x # acc) (CHR '' '' # ys)"
    using Cons by simp
  finally show ?case by simp
qed

lemma split_or_last:
  "CHR ''O'' \<notin> set xs \<Longrightarrow> split_or st acc xs = [rev acc @ xs]"
proof (induction xs arbitrary: st acc)
  case Nil
  then show ?case by simp
next
  case (Cons x xs)
  have "\<not> prefix '' OR '' (x # xs)"
    using Cons.prems by (cases xs) auto
  then have np: "\<not> (st = Lex 0 False \<and> prefix '' OR '' (x # xs))"
    by blast
  have "split_or st acc (x # xs) = split_or (lex_step st x) (x # acc) xs"
    by (simp only: split_or.simps(2) np if_False)
  then show ?case using Cons by simp
qed

lemma split_or_keyword:
  "split_or (Lex 0 False) acc ('' OR '' @ ys) = rev acc # split_or (Lex 0 False) [] ys"
  by simp

lemma top_disjuncts_person_predicate:
  assumes "neutral s"
  shows "top_disjuncts (s @ '' OR r.person_id = '' @ show_int a @ '' OR r.person_id = '' @ show_int b) =
           [s, ''r.person_id = '' @ show_int a, ''r.person_id = '' @ show_int b]"
proof -
  let ?A = "''r.person_id = '' @ show_int a" and ?B = "''r.person_id = '' @ show_int b"
  have qa: "list_all quiet ?A" and qb: "list_all quiet ?B"
    using quiet_show_int by (simp_all add: quiet_def dq_def)
  from assms have s1: "CHR ''O'' \<notin> set s" and s2: "lex_run (Lex 0 False) s = Lex 0 False"
    by (simp_all add: neutral_def)
  have "top_disjuncts (s @ '' OR r.person_id = '' @ show_int a @ '' OR r.person_id = '' @ show_int b) =
          split_or (Lex 0 False) [] (s @ CHR '' '' # (''OR '' @ ?A @ '' OR '' @ ?B))"
    by (simp add: top_disjuncts_def)
  also have "\<dots> = split_or (Lex 0 False) (rev s) ('' OR '' @ ?A @ '' OR '' @ ?B)"
    using split_or_skip[OF s1, of "Lex 0 False" "[]"] s2 by simp
  also have "\<dots> = s # split_or (Lex 0 False) [] (?A @ CHR '' '' # (''OR '' @ ?B))"
    by (simp only: split_or_keyword) simp
  also have "split_or (Lex 0 False) [] (?A @ CHR '' '' # (''OR '' @ ?B)) =
             split_or (Lex 0 False) (rev ?A) ('' OR '' @ ?B)"
    using split_or_skip[OF quiet_no_O[OF qa], of "Lex 0 False" "[]"] quiet_run[OF qa] by simp
  also have "\<dots> = ?A # split_or (Lex 0 False) [] ?B"
    by (simp only: split_or_keyword) simp
  also have "split_or (Lex 0 False) [] ?B = [?B]"
    using split_or_last[OF quiet_no_O[OF qb]] by simp
  finally show ?thesis .
qed

text \<open>
  Reading the query: what follows the last opening square bracket is the head of the
  person clause, its predicate and the tail of the query, when the predicate holds no
  such bracket itself.
\<close>

lemma takeWhile_upto: "x \<notin> set xs \<Longrightarrow> takeWhile (\<lambda>c. c \<noteq> x) (xs @ x # ys) = xs"
  by (induction xs) auto

lemma person_predicate_last:
  assumes "CHR ''['' \<notin> set body"
  shows "person_predicate (pre @ ''all(r IN ['' @ person_head @ body @ query_tail) = Some body"
proof -
  let ?t = "person_head @ body @ query_tail"
  let ?q = "pre @ ''all(r IN ['' @ ?t"
  have nb: "CHR ''['' \<notin> set ?t"
    using assms by (simp add: person_head_def query_tail_def)
  have rq: "rev ?q = rev ?t @ CHR ''['' # rev (pre @ ''all(r IN '')"
    by simp
  have "CHR ''['' \<notin> set (rev ?t)"
    using nb by simp
  then have "takeWhile (\<lambda>c. c \<noteq> CHR ''['') (rev ?q) = rev ?t"
    unfolding rq by (rule takeWhile_upto)
  then have t: "rev (takeWhile (\<lambda>c. c \<noteq> CHR ''['') (rev ?q)) = ?t"
    by (simp only: rev_rev_ident)
  have 1: "CHR ''['' \<in> set ?q" by simp
  have 2: "prefix person_head ?t" by simp
  have 3: "suffix query_tail ?t"
    by (simp add: suffix_def)
  have 4: "length person_head + length query_tail \<le> length ?t" by simp
  have 5: "take (length ?t - length person_head - length query_tail) (drop (length person_head) ?t) = body"
    by simp
  show ?thesis
    unfolding person_predicate_def Let_def t using 1 2 3 4 5 by (simp only: simp_thms if_True)
qed

lemma join_snoc: "join sep (cs @ [c]) = concat (map (\<lambda>x. x @ sep) cs) @ c"
  by (induction sep cs rule: join.induct) simp_all

text \<open>An empty filter object compiles to the empty text, for which no clause is pushed.\<close>

lemma empty_filter_no_clause:
  "create_filter [] = Inr []" "push_clause clause (Some []) fs = fs"
  by (simp_all add: create_filter_def push_clause_def)

text \<open>
  C2: for every person filter of the declared input type (the GraphQL layer hands the
  resolver no other) and every pair of endpoint identifiers, the query that
  \<^verbatim>\<open>build_query\<close> returns ends with the person clause
  \<^verbatim>\<open>all(r IN [x in nodes(p) where x:Person] WHERE F OR r.person_id = a OR r.person_id = b)\<close>,
  with \<open>F\<close> the compiled filter and \<open>a\<close>, \<open>b\<close> the two endpoints, after the header, the
  \<^verbatim>\<open>WHERE\<close> keyword and the movie and episode clauses, each followed by \<^verbatim>\<open>AND\<close>. The
  predicate of the person clause, read off the query, has exactly three top-level
  disjuncts: \<open>F\<close> and the two identity tests. So a Person node whose \<^verbatim>\<open>person_id\<close> is one
  of the two endpoints satisfies the person constraint whatever the filter holds. (An
  empty filter object compiles to the empty text, and then no person clause is pushed at
  all.)
\<close>

theorem endpoints_exempt_from_person_filter:
  assumes "build_query args = Inr q" and "filters args = Some fs"
    and "person_filter fs = Some pf" and "pf \<noteq> []" and "conforms PersonFilter_fields pf"
  shows "\<exists>s M T.
           create_filter pf = Inr s \<and>
           category_filter (movie_filter fs) = Inr M \<and>
           category_filter (tv_filter fs) = Inr T \<and>
           q = match_clause (first_person_id args) (second_person_id args) @ '' WHERE '' @
               concat (map (\<lambda>c. c @ '' AND '') (push_clause tv_clause T (push_clause movie_clause M []))) @
               ''all(r IN [x in nodes(p) where x:Person] WHERE '' @ s @
               '' OR r.person_id = '' @ show_int (first_person_id args) @
               '' OR r.person_id = '' @ show_int (second_person_id args) @ '') RETURN p'' \<and>
           person_predicate q =
             Some (s @ '' OR r.person_id = '' @ show_int (first_person_id args) @
                   '' OR r.person_id = '' @ show_int (second_person_id args)) \<and>
           top_disjuncts (s @ '' OR r.person_id = '' @ show_int (first_person_id args) @
                          '' OR r.person_id = '' @ show_int (second_person_id args)) =
             [s, ''r.person_id = '' @ show_int (first_person_id args),
              ''r.person_id = '' @ show_int (second_person_id args)] \<and>
           endpoint_exempt q (first_person_id args) \<and>
           endpoint_exempt q (second_person_id args)"
proof -
  let ?a = "first_person_id args" and ?b = "second_person_id args"
  from assms(1) obtain M T P where
    m: "category_filter (get_filter args movie_filter) = Inr M" and
    t: "category_filter (get_filter args tv_filter) = Inr T" and
    p: "category_filter (get_filter args person_filter) = Inr P" and
    q: "q = assemble_query args M T P"
    by (auto simp: build_query_def split: sum.splits)
  from m t assms(2) have m': "category_filter (movie_filter fs) = Inr M"
    and t': "category_filter (tv_filter fs) = Inr T"
    by (simp_all add: get_filter_def)
  from p assms(2,3) obtain s where P: "P = Some s" and s: "create_filter pf = Inr s"
    by (auto simp: category_filter_def get_filter_def split: sum.splits)
  from assms(4) obtain k v where kv: "(k, v) \<in> set pf" by (cases pf) auto
  have ne: "s \<noteq> []"
  proof -
    from s obtain ss where ss: "compile_entries pf = Inr ss" and j: "s = join '' AND '' ss"
      by (auto simp: create_filter_def split: sum.splits)
    from compile_entries_mem[OF ss kv] obtain e where
      e: "e \<in> set ss" "compile_entry (k, v) = Inr e" by blast
    show ?thesis using j join_nonempty[OF e(1) compile_entry_nonempty[OF e(2)]] by simp
  qed
  let ?body = "s @ '' OR r.person_id = '' @ show_int ?a @ '' OR r.person_id = '' @ show_int ?b"
  let ?cs = "push_clause tv_clause T (push_clause movie_clause M [])"
  let ?others = "concat (map (\<lambda>c. c @ '' AND '') ?cs)"
  have pr: "present (get_filter args person_filter)"
    using assms(2,3) by (simp add: get_filter_def present_def)
  have q1: "q = match_clause ?a ?b @ '' WHERE '' @ ?others @
               ''all(r IN [x in nodes(p) where x:Person] WHERE '' @ s @
               '' OR r.person_id = '' @ show_int ?a @
               '' OR r.person_id = '' @ show_int ?b @ '') RETURN p''"
    using q P ne pr
    by (simp add: assemble_query_def Let_def push_clause_def join_snoc person_clause_def
        person_where_def)
  have q2: "q = (match_clause ?a ?b @ '' WHERE '' @ ?others) @
                ''all(r IN ['' @ person_head @ ?body @ query_tail"
    unfolding q1 by (simp add: person_head_def query_tail_def)
  have n: "neutral s" using assms(5) s by (rule create_filter_neutral)
  have td: "top_disjuncts ?body =
              [s, ''r.person_id = '' @ show_int ?a, ''r.person_id = '' @ show_int ?b]"
    using n by (rule top_disjuncts_person_predicate)
  have "CHR ''['' \<notin> set ?body"
    using n quiet_no_bracket[OF quiet_show_int] by (simp add: neutral_def)
  then have "person_predicate ((match_clause ?a ?b @ '' WHERE '' @ ?others) @
                ''all(r IN ['' @ person_head @ ?body @ query_tail) = Some ?body"
    by (rule person_predicate_last)
  then have pp: "person_predicate q = Some ?body"
    by (simp only: q2)
  have ia: "''r.person_id = '' @ show_int ?a \<in> set (top_disjuncts ?body)"
    unfolding td by simp
  have ib: "''r.person_id = '' @ show_int ?b \<in> set (top_disjuncts ?body)"
    unfolding td by simp
  have ex: "endpoint_exempt q ?a" "endpoint_exempt q ?b"
    unfolding endpoint_exempt_def pp using ia ib by (simp_all only: option.case)
  from s m' t' q1 pp td ex show ?thesis by blast
qed

text \<open>
  An instance: a filter on gender and birthday, the query built from it, and the
  predicate read off that query.
\<close>

theorem endpoints_exempt_from_person_filter_witness:
  "conforms PersonFilter_fields typed_person_filter \<and>
   build_query typed_args = Inr typed_query \<and>
   person_predicate typed_query = Some typed_person_predicate \<and>
   top_disjuncts typed_person_predicate = [typed_person_text, ''r.person_id = 1'', ''r.person_id = 2''] \<and>
   endpoint_exempt typed_query 1 \<and> endpoint_exempt typed_query 2"
proof -
  have c: "conforms PersonFilter_fields typed_person_filter"
    by (simp add: conforms_def typed_person_filter_def PersonFilter_fields_def comparisons_def)
  have t: "create_filter typed_person_filter = Inr typed_person_text"
    by (simp add: typed_person_filter_def typed_person_text_def filter_eval text_eval)
  have i: "show_int 1 = ''1''" "show_int 2 = ''2''"
    by (simp_all add: text_eval)
  have b: "build_query typed_args = Inr typed_query"
    by (simp add: build_query_def typed_args_def get_filter_def category_filter_def t
        assemble_query_def present_def push_clause_def person_clause_def person_where_def
        typed_person_text_def typed_query_def typed_person_predicate_def i)
  have f: "filters typed_args = Some \<lparr>movie_filter = None, tv_filter = None,
                     person_filter = Some typed_person_filter\<rparr>"
    by (simp add: typed_args_def)
  have p: "person_filter \<lparr>movie_filter = None, tv_filter = None,
                     person_filter = Some typed_person_filter\<rparr> = Some typed_person_filter"
    by simp
  have n: "typed_person_filter \<noteq> []"
    by (simp add: typed_person_filter_def)
  have ids: "first_person_id typed_args = 1" "second_person_id typed_args = 2"
    by (simp_all add: typed_args_def)
  from endpoints_exempt_from_person_filter[OF b f p n c] obtain s where
    "create_filter typed_person_filter = Inr s"
    "person_predicate typed_query = Some (s @ '' OR r.person_id = '' @ show_int 1 @
                   '' OR r.person_id = '' @ show_int 2)"
    "top_disjuncts (s @ '' OR r.person_id = '' @ show_int 1 @ '' OR r.person_id = '' @ show_int 2) =
             [s, ''r.person_id = '' @ show_int 1, ''r.person_id = '' @ show_int 2]"
    "endpoint_exempt typed_query 1" "endpoint_exempt typed_query 2"
    unfolding ids by blast
  with t c b show ?thesis
    by (simp add: typed_person_predicate_def i)
qed

text \<open>
  The reading is computed from the query text alone, and it tells the queries apart: on
  the query of the instance it yields the three disjuncts, and on the query built from a
  filter that the declared input type excludes, where a text operand closes the bracket
  of the clause, it finds no identity test at top level.
\<close>

lemma typed_query_read:
  "person_predicate typed_query = Some typed_person_predicate"
  "top_disjuncts typed_person_predicate =
     [typed_person_text, ''r.person_id = 1'', ''r.person_id = 2'']"
  by (simp_all add: person_predicate_def typed_query_def typed_person_predicate_def
      typed_person_text_def match_clause_def person_head_def query_tail_def Let_def
      suffix_to_prefix top_disjuncts_def lex_step.simps dq_def)

lemma untyped_filter_not_exempt:
  "\<not> conforms PersonFilter_fields untyped_person_filter \<and>
   build_query untyped_args = Inr untyped_query \<and>
   person_predicate untyped_query =
     Some ''r.gender = 1) AND (false OR r.person_id = 1 OR r.person_id = 2'' \<and>
   \<not> endpoint_exempt untyped_query 1 \<and> \<not> endpoint_exempt untyped_query 2"
proof -
  have c: "\<not> conforms PersonFilter_fields untyped_person_filter"
    by (simp add: conforms_def untyped_person_filter_def PersonFilter_fields_def comparisons_def)
  have i: "show_int 1 = ''1''" "show_int 2 = ''2''"
    by (simp_all add: text_eval)
  have b: "build_query untyped_args = Inr untyped_query"
    by (simp add: build_query_def untyped_args_def untyped_person_filter_def get_filter_def
        category_filter_def filter_eval assemble_query_def present_def push_clause_def
        person_clause_def person_where_def untyped_query_def i)
  have p: "person_predicate untyped_query =
             Some ''r.gender = 1) AND (false OR r.person_id = 1 OR r.person_id = 2''"
    by (simp add: person_predicate_def untyped_query_def match_clause_def person_head_def
        query_tail_def Let_def suffix_to_prefix)
  have t: "top_disjuncts ''r.gender = 1) AND (false OR r.person_id = 1 OR r.person_id = 2'' =
             [''r.gender = 1) AND (false OR r.person_id = 1 OR r.person_id = 2'']"
    by (simp add: top_disjuncts_def lex_step.simps dq_def)
  have "\<not> endpoint_exempt untyped_query 1" "\<not> endpoint_exempt untyped_query 2"
    by (simp_all add: endpoint_exempt_def p t i)
  with c b p show ?thesis by blast
qed

section \<open>Properties of the entity type resolver\<close>

text \<open>
  C4, as the code has it: the resolver answers \<^verbatim>\<open>Movie\<close> whenever \<^verbatim>\<open>movie_id\<close> holds a
  truthy value, \<^verbatim>\<open>TvEpisode\<close> whenever \<^verbatim>\<open>movie_id\<close> does not and \<^verbatim>\<open>tv_show_id\<close>
  holds a truthy value, and \<^verbatim>\<open>null\<close> in every other case, in particular when the
  record has neither field. It reads no other field: \<^verbatim>\<open>episode_id\<close> does not make a
  record an episode.
\<close>

theorem resolveType_by_truthiness:
  "(truthy (get_prop obj ''movie_id'') \<longrightarrow> MovieOrTvEpisode_resolveType obj = Some ''Movie'') \<and>
   (\<not> truthy (get_prop obj ''movie_id'') \<and> truthy (get_prop obj ''tv_show_id'') \<longrightarrow>
      MovieOrTvEpisode_resolveType obj = Some ''TvEpisode'') \<and>
   (\<not> truthy (get_prop obj ''movie_id'') \<and> \<not> truthy (get_prop obj ''tv_show_id'') \<longrightarrow>
      MovieOrTvEpisode_resolveType obj = None) \<and>
   (\<not> hasOwnProperty obj ''movie_id'' \<and> \<not> hasOwnProperty obj ''tv_show_id'' \<longrightarrow>
      MovieOrTvEpisode_resolveType obj = None)"
  by (simp add: MovieOrTvEpisode_resolveType_def get_prop_def hasOwnProperty_def)

text \<open>An instance: a film, an episode, and a record with neither field.\<close>

theorem resolveType_by_truthiness_witness:
  "MovieOrTvEpisode_resolveType (properties movie1) = Some ''Movie'' \<and>
   MovieOrTvEpisode_resolveType (properties episode1) = Some ''TvEpisode'' \<and>
   MovieOrTvEpisode_resolveType (properties person1) = None"
proof -
  have m: "truthy (get_prop (properties movie1) ''movie_id'')"
    by (simp add: movie1_def get_prop_def)
  have e: "\<not> truthy (get_prop (properties episode1) ''movie_id'') \<and>
           truthy (get_prop (properties episode1) ''tv_show_id'')"
    by (simp add: episode1_def get_prop_def)
  have p: "\<not> hasOwnProperty (properties person1) ''movie_id'' \<and>
           \<not> hasOwnProperty (properties person1) ''tv_show_id''"
    by (simp add: person1_def hasOwnProperty_def)
  from resolveType_by_truthiness[of "properties movie1"] m
  have 1: "MovieOrTvEpisode_resolveType (properties movie1) = Some ''Movie''" by blast
  from resolveType_by_truthiness[of "properties episode1"] e
  have 2: "MovieOrTvEpisode_resolveType (properties episode1) = Some ''TvEpisode''" by blast
  from resolveType_by_truthiness[of "properties person1"] p
  have 3: "MovieOrTvEpisode_resolveType (properties person1) = None" by blast
  from 1 2 3 show ?thesis by blast
qed

text \<open>
  The claim fails on a record that has an \<^verbatim>\<open>episode_id\<close> and neither \<^verbatim>\<open>movie_id\<close> nor
  \<^verbatim>\<open>tv_show_id\<close>: the resolver returns \<^verbatim>\<open>null\<close>.
\<close>

theorem resolveType_null_counterexample:
  "MovieOrTvEpisode_resolveType [(''title'', JStr ''Pilot''), (''episode_id'', JInteger 5)] = None"
  by (simp add: MovieOrTvEpisode_resolveType_def get_prop_def)

section \<open>Properties of the path decomposer\<close>

lemma build_query_no_filters:
  "build_query \<lparr>first_person_id = a, second_person_id = b, filters = None\<rparr> =
     Inr (match_clause a b @ '' RETURN p'')"
  by (simp add: build_query_def get_filter_def category_filter_def assemble_query_def
      present_def push_clause_def)

lemma find_path_records:
  "build_query args = Inr q \<Longrightarrow> executeQuery drv q = Inr (p # ps) \<Longrightarrow>
   find_path drv args =
     (Inr (fst (decompose drv 0 (segments p))), q # snd (decompose drv 0 (segments p)))"
  by (simp add: find_path_def Let_def)

lemma decompose_length: "length (fst (decompose drv i ss)) = length ss"
  by (induction ss arbitrary: i) (simp_all add: Let_def)

lemma decompose_nth:
  "k < length ss \<Longrightarrow>
   fst (decompose drv i ss) ! k =
     \<lparr>person = (if (i + k) mod 2 = 0 then properties (seg_start (ss ! k))
                else properties (seg_end (ss ! k))),
      relationship = r_properties (seg_relationship (ss ! k)),
      project = fst (attach_parent_show drv
                  (if (i + k) mod 2 = 0 then properties (seg_end (ss ! k))
                   else properties (seg_start (ss ! k))))\<rparr>"
proof (induction ss arbitrary: i k)
  case Nil
  then show ?case by simp
next
  case (Cons s ss)
  show ?case
  proof (cases k)
    case 0
    then show ?thesis by (simp add: Let_def)
  next
    case (Suc k')
    with Cons.prems have "k' < length ss" by simp
    from Cons.IH[OF this, of "Suc i"] Suc show ?thesis by (simp add: Let_def)
  qed
qed

text \<open>
  On a chain of person-project segments the side of the person flips at every step, so
  it follows the parity of the index.
\<close>

lemma alternation:
  "chained ss \<Longrightarrow> list_all person_project_segment ss \<Longrightarrow> ss \<noteq> [] \<Longrightarrow>
   is_person (seg_start (hd ss)) = (i mod 2 = 0) \<Longrightarrow> k < length ss \<Longrightarrow>
   is_person (seg_start (ss ! k)) = ((i + k) mod 2 = 0)"
proof (induction ss arbitrary: i k)
  case Nil
  then show ?case by simp
next
  case (Cons s ss)
  show ?case
  proof (cases k)
    case 0
    with Cons.prems show ?thesis by simp
  next
    case (Suc k')
    with Cons.prems have k': "k' < length ss" by simp
    then obtain t ts where ss: "ss = t # ts" by (cases ss) auto
    from Cons.prems(1) ss have link: "seg_end s = seg_start t" and ch: "chained ss" by simp_all
    from Cons.prems(2) have seg: "person_project_segment s"
      and rest: "list_all person_project_segment ss"
      by simp_all
    from seg have "is_person (seg_end s) = (\<not> is_person (seg_start s))"
      by (auto simp: person_project_segment_def is_project_def)
    with link Cons.prems(4) have "is_person (seg_start (hd ss)) = (Suc i mod 2 = 0)"
      using ss by (simp add: mod_Suc)
    from Cons.IH[OF ch rest _ this k'] ss Suc show ?thesis by simp
  qed
qed

lemma person_side_parity:
  assumes "wf_path ss" and "k < length ss"
  shows "is_person (seg_start (ss ! k)) = (k mod 2 = 0)"
proof -
  from assms(1) obtain s ss' where ss: "ss = s # ss'"
    and p: "is_person (seg_start s)" and c: "chained ss"
    and l: "list_all person_project_segment ss"
    by (auto simp: wf_path_def split: list.splits)
  from ss p have "is_person (seg_start (hd ss)) = ((0::nat) mod 2 = 0)" by simp
  from alternation[OF c l _ this assms(2)] ss show ?thesis by simp
qed

lemma decompose_wf_nth:
  assumes "wf_path ss" and "k < length ss"
  shows "fst (decompose drv 0 ss) ! k =
     \<lparr>person = properties (person_side (ss ! k)),
      relationship = r_properties (seg_relationship (ss ! k)),
      project = fst (attach_parent_show drv (properties (project_side (ss ! k))))\<rparr>"
  using person_side_parity[OF assms]
  by (simp add: decompose_nth[OF assms(2)] person_side_def project_side_def)

lemma get_prop_update: "get_prop (AList.update k v ps) k = v"
  by (simp add: get_prop_def update_conv')

text \<open>
  What the enrichment does to the properties of a project: nothing when they hold no
  \<^verbatim>\<open>episode_id\<close>, and otherwise it sets \<^verbatim>\<open>parent_show\<close> and touches no other property.
\<close>

lemma attach_parent_show_shape:
  "if hasOwnProperty P ''episode_id''
   then \<exists>v. fst (attach_parent_show drv P) = AList.update ''parent_show'' v P
   else fst (attach_parent_show drv P) = P"
  by (auto simp: attach_parent_show_def)

text \<open>
  C5: for every path the traversal returns that is a chain of person-project segments
  starting at a person, the decomposer gives one triple for each segment, in the order of
  the path and starting with the first person; the person of each triple is the Person
  node of its segment, on whichever side of the segment it stands and whichever way the
  edge points, and the relationship and the project are those of the same segment: the
  project is the property list of the project node of the segment, unchanged when it
  holds no \<^verbatim>\<open>episode_id\<close>, and with \<^verbatim>\<open>parent_show\<close> set and nothing else changed when
  it does.
\<close>

theorem decomposer_triples:
  assumes "build_query args = Inr q" and "executeQuery drv q = Inr (p # ps)"
    and "wf_path (segments p)"
  shows "\<exists>ts. fst (find_path drv args) = Inr ts \<and> length ts = length (segments p) \<and>
           person (hd ts) = properties (seg_start (hd (segments p))) \<and>
           (\<forall>i < length ts.
              person (ts ! i) = properties (person_side (segments p ! i)) \<and>
              relationship (ts ! i) = r_properties (seg_relationship (segments p ! i)) \<and>
              (if hasOwnProperty (properties (project_side (segments p ! i))) ''episode_id''
               then \<exists>v. project (ts ! i) =
                      AList.update ''parent_show'' v (properties (project_side (segments p ! i)))
               else project (ts ! i) = properties (project_side (segments p ! i))))"
proof -
  let ?ss = "segments p"
  let ?ts = "fst (decompose drv 0 ?ss)"
  have res: "fst (find_path drv args) = Inr ?ts"
    using find_path_records[OF assms(1,2)] by simp
  have len: "length ?ts = length ?ss" by (rule decompose_length)
  have each: "person (?ts ! i) = properties (person_side (?ss ! i)) \<and>
              relationship (?ts ! i) = r_properties (seg_relationship (?ss ! i)) \<and>
              (if hasOwnProperty (properties (project_side (?ss ! i))) ''episode_id''
               then \<exists>v. project (?ts ! i) =
                      AList.update ''parent_show'' v (properties (project_side (?ss ! i)))
               else project (?ts ! i) = properties (project_side (?ss ! i)))"
    if "i < length ?ts" for i
  proof -
    from that len have "i < length ?ss" by simp
    from decompose_wf_nth[OF assms(3) this]
    have "person (?ts ! i) = properties (person_side (?ss ! i))"
      and "relationship (?ts ! i) = r_properties (seg_relationship (?ss ! i))"
      and "project (?ts ! i) = fst (attach_parent_show drv (properties (project_side (?ss ! i))))"
      by simp_all
    then show ?thesis
      using attach_parent_show_shape[of "properties (project_side (?ss ! i))" drv]
      by simp
  qed
  have ne: "?ss \<noteq> []" using assms(3) by (auto simp: wf_path_def)
  then have "0 < length ?ts" using len by simp
  from each[OF this] ne have first: "person (hd ?ts) = properties (seg_start (hd ?ss))"
    using assms(3) len
    by (cases ?ss; cases ?ts) (auto simp: wf_path_def person_side_def)
  from res len first each show ?thesis by blast
qed

text \<open>
  An instance: two people joined by a film, and two people joined by an episode, whose
  project appears in both triples with its \<^verbatim>\<open>parent_show\<close> set.
\<close>

theorem decomposer_triples_witness:
  "wf_path (segments movie_path) \<and> wf_path (segments episode_path) \<and>
   (\<exists>ts. fst (find_path (fixed_driver [movie_path] []) example_args) = Inr ts \<and> length ts = 2 \<and>
      person (ts ! 0) = properties person1 \<and> project (ts ! 0) = properties movie1 \<and>
      person (ts ! 1) = properties person2 \<and> project (ts ! 1) = properties movie1) \<and>
   (\<exists>ts v w. fst (find_path (fixed_driver [episode_path] [show1]) example_args) = Inr ts \<and>
      length ts = 2 \<and>
      person (ts ! 0) = properties person1 \<and>
      project (ts ! 0) =
        [(''episode_id'', JInteger 5), (''tv_show_id'', JInteger 9), (''parent_show'', v)] \<and>
      person (ts ! 1) = properties person2 \<and>
      project (ts ! 1) =
        [(''episode_id'', JInteger 5), (''tv_show_id'', JInteger 9), (''parent_show'', w)])"
proof -
  let ?drv = "fixed_driver [movie_path] []"
  let ?drv' = "fixed_driver [episode_path] [show1]"
  have b: "build_query example_args = Inr (match_clause 1 2 @ '' RETURN p'')"
    by (simp add: example_args_def build_query_no_filters)
  have e: "executeQuery ?drv (match_clause 1 2 @ '' RETURN p'') = Inr (movie_path # [])"
    by (simp add: fixed_driver_def)
  have e': "executeQuery ?drv' (match_clause 1 2 @ '' RETURN p'') = Inr (episode_path # [])"
    by (simp add: fixed_driver_def)
  have w: "wf_path (segments movie_path)"
    by (simp add: wf_path_def movie_path_def person_project_segment_def is_person_def
        is_project_def person1_def person2_def movie1_def)
  have w': "wf_path (segments episode_path)"
    by (simp add: wf_path_def episode_path_def person_project_segment_def is_person_def
        is_project_def person1_def person2_def episode1_def)
  from decomposer_triples[OF b e w] obtain ts where
    r: "fst (find_path ?drv example_args) = Inr ts"
    and l: "length ts = length (segments movie_path)"
    and a: "\<forall>i < length ts.
              person (ts ! i) = properties (person_side (segments movie_path ! i)) \<and>
              relationship (ts ! i) = r_properties (seg_relationship (segments movie_path ! i)) \<and>
              (if hasOwnProperty (properties (project_side (segments movie_path ! i))) ''episode_id''
               then \<exists>v. project (ts ! i) =
                      AList.update ''parent_show'' v (properties (project_side (segments movie_path ! i)))
               else project (ts ! i) = properties (project_side (segments movie_path ! i)))"
    by blast
  from l have l2: "length ts = 2" by (simp add: movie_path_def)
  from a l2 have "person (ts ! 0) = properties person1 \<and> project (ts ! 0) = properties movie1"
    by (simp add: movie_path_def person_side_def project_side_def is_person_def person1_def
        movie1_def hasOwnProperty_def)
  moreover from a l2 have "person (ts ! 1) = properties person2 \<and> project (ts ! 1) = properties movie1"
    by (simp add: movie_path_def person_side_def project_side_def is_person_def person2_def
        movie1_def hasOwnProperty_def)
  ultimately have film:
    "\<exists>ts. fst (find_path ?drv example_args) = Inr ts \<and> length ts = 2 \<and>
      person (ts ! 0) = properties person1 \<and> project (ts ! 0) = properties movie1 \<and>
      person (ts ! 1) = properties person2 \<and> project (ts ! 1) = properties movie1"
    using r l2 by blast
  from decomposer_triples[OF b e' w'] obtain us where
    r': "fst (find_path ?drv' example_args) = Inr us"
    and l': "length us = length (segments episode_path)"
    and a': "\<forall>i < length us.
              person (us ! i) = properties (person_side (segments episode_path ! i)) \<and>
              relationship (us ! i) = r_properties (seg_relationship (segments episode_path ! i)) \<and>
              (if hasOwnProperty (properties (project_side (segments episode_path ! i))) ''episode_id''
               then \<exists>v. project (us ! i) =
                      AList.update ''parent_show'' v (properties (project_side (segments episode_path ! i)))
               else project (us ! i) = properties (project_side (segments episode_path ! i)))"
    by blast
  from l' have l2': "length us = 2" by (simp add: episode_path_def)
  then have i0: "0 < length us" and i1: "1 < length us" by simp_all
  note a0 = a'[rule_format, OF i0] and a1 = a'[rule_format, OF i1]
  from a0 have 0: "person (us ! 0) = properties person1 \<and>
      (\<exists>v. project (us ! 0) =
        [(''episode_id'', JInteger 5), (''tv_show_id'', JInteger 9), (''parent_show'', v)])"
    by (simp add: episode_path_def person_side_def project_side_def is_person_def person1_def
        episode1_def hasOwnProperty_def)
  from a1 have 1: "person (us ! 1) = properties person2 \<and>
      (\<exists>w. project (us ! 1) =
        [(''episode_id'', JInteger 5), (''tv_show_id'', JInteger 9), (''parent_show'', w)])"
    by (simp add: episode_path_def person_side_def project_side_def is_person_def person2_def
        episode1_def hasOwnProperty_def)
  from 0 1 r' l2' have episode:
    "\<exists>ts v w. fst (find_path ?drv' example_args) = Inr ts \<and>
      length ts = 2 \<and>
      person (ts ! 0) = properties person1 \<and>
      project (ts ! 0) =
        [(''episode_id'', JInteger 5), (''tv_show_id'', JInteger 9), (''parent_show'', v)] \<and>
      person (ts ! 1) = properties person2 \<and>
      project (ts ! 1) =
        [(''episode_id'', JInteger 5), (''tv_show_id'', JInteger 9), (''parent_show'', w)]"
    by blast
  from w w' film episode show ?thesis by blast
qed

subsection \<open>Segments that are not person-project segments\<close>

text \<open>
  C9, as the code has it: the decomposer checks nothing about a segment. Whatever the two
  nodes of a segment are, it gives a triple for it, and never fails on a segment: at an
  even index the person is read from the start node and the project from the end node, at
  an odd index the other way round.
\<close>

theorem decomposer_never_rejects:
  assumes "build_query args = Inr q" and "executeQuery drv q = Inr (p # ps)"
  shows "\<exists>ts. fst (find_path drv args) = Inr ts \<and> length ts = length (segments p) \<and>
           (\<forall>i < length ts.
              person (ts ! i) =
                properties ((if i mod 2 = 0 then seg_start else seg_end) (segments p ! i)) \<and>
              project (ts ! i) =
                fst (attach_parent_show drv
                       (properties ((if i mod 2 = 0 then seg_end else seg_start) (segments p ! i)))))"
proof -
  let ?ts = "fst (decompose drv 0 (segments p))"
  have "fst (find_path drv args) = Inr ?ts"
    using find_path_records[OF assms] by simp
  moreover have "length ?ts = length (segments p)" by (rule decompose_length)
  ultimately show ?thesis
    by (auto simp: decompose_nth)
qed

text \<open>An instance: the path whose only segment joins two people.\<close>

theorem decomposer_never_rejects_witness:
  "\<exists>ts. fst (find_path (fixed_driver [malformed_path] []) example_args) = Inr ts \<and> length ts = 1"
proof -
  have b: "build_query example_args = Inr (match_clause 1 2 @ '' RETURN p'')"
    by (simp add: example_args_def build_query_no_filters)
  have e: "executeQuery (fixed_driver [malformed_path] []) (match_clause 1 2 @ '' RETURN p'') =
             Inr (malformed_path # [])"
    by (simp add: fixed_driver_def)
  from decomposer_never_rejects[OF b e] show ?thesis by (auto simp: malformed_path_def)
qed

text \<open>
  The claim fails on that path: its segment joins two Person nodes, and the decomposer
  gives a triple whose project is the second person.
\<close>

theorem malformed_segment_counterexample:
  "\<not> person_project_segment (hd (segments malformed_path)) \<and>
   fst (find_path (fixed_driver [malformed_path] []) example_args) =
     Inr [\<lparr>person = properties person1, relationship = r_properties (cast_edge 10 11),
           project = properties person2\<rparr>]"
  by (simp add: find_path_def example_args_def build_query_no_filters fixed_driver_def
      malformed_path_def person_project_segment_def is_project_def is_person_def
      person1_def person2_def attach_parent_show_def hasOwnProperty_def Let_def)

subsection \<open>The parent show of an episode\<close>

text \<open>
  C6, as the code has it: when \<^verbatim>\<open>find_path\<close> returns, the \<^verbatim>\<open>parent_show\<close> of every
  project on the path that has an \<^verbatim>\<open>episode_id\<close> holds the promise of the lookup of the
  show keyed by the project's \<^verbatim>\<open>tv_show_id\<close>; the promise is not awaited, so the field
  holds neither a Show record nor \<^verbatim>\<open>null\<close>. The path result is returned whatever the
  lookups answer.
\<close>

theorem parent_show_is_promise:
  assumes "build_query args = Inr q" and "executeQuery drv q = Inr (p # ps)"
    and "wf_path (segments p)" and "i < length (segments p)"
    and "hasOwnProperty (properties (project_side (segments p ! i))) ''episode_id''"
  shows "\<exists>ts. fst (find_path drv args) = Inr ts \<and>
           get_prop (project (ts ! i)) ''parent_show'' =
             parent_show_promise drv (parent_show_query (properties (project_side (segments p ! i)))) \<and>
           (\<exists>outcome. get_prop (project (ts ! i)) ''parent_show'' = JPromise outcome)"
proof -
  let ?ts = "fst (decompose drv 0 (segments p))"
  let ?proj = "properties (project_side (segments p ! i))"
  have r: "fst (find_path drv args) = Inr ?ts"
    using find_path_records[OF assms(1,2)] by simp
  from decompose_wf_nth[OF assms(3,4)]
  have "project (?ts ! i) = fst (attach_parent_show drv ?proj)" by simp
  with assms(5) have g: "get_prop (project (?ts ! i)) ''parent_show'' =
             parent_show_promise drv (parent_show_query ?proj)"
    by (simp add: attach_parent_show_def get_prop_update)
  then have "\<exists>outcome. get_prop (project (?ts ! i)) ''parent_show'' = JPromise outcome"
    by (simp add: parent_show_promise_def)
  with r g show ?thesis by blast
qed

text \<open>An instance: two people joined by an episode whose show is not found.\<close>

theorem parent_show_is_promise_witness:
  "wf_path (segments episode_path) \<and>
   hasOwnProperty (properties (project_side (segments episode_path ! 0))) ''episode_id'' \<and>
   (\<exists>ts outcome. fst (find_path dangling_driver example_args) = Inr ts \<and>
      get_prop (project (ts ! 0)) ''parent_show'' = JPromise outcome)"
proof -
  have b: "build_query example_args = Inr (match_clause 1 2 @ '' RETURN p'')"
    by (simp add: example_args_def build_query_no_filters)
  have e: "executeQuery dangling_driver (match_clause 1 2 @ '' RETURN p'') = Inr (episode_path # [])"
    by (simp add: dangling_driver_def fixed_driver_def)
  have w: "wf_path (segments episode_path)"
    by (simp add: wf_path_def episode_path_def person_project_segment_def is_person_def
        is_project_def person1_def person2_def episode1_def)
  have i: "0 < length (segments episode_path)"
    by (simp add: episode_path_def)
  have h: "hasOwnProperty (properties (project_side (segments episode_path ! 0))) ''episode_id''"
    by (simp add: episode_path_def project_side_def is_person_def person1_def episode1_def
        hasOwnProperty_def)
  from parent_show_is_promise[OF b e w i h] w h show ?thesis by blast
qed

text \<open>
  The claim fails on that path: after \<^verbatim>\<open>find_path\<close> has returned, the \<^verbatim>\<open>parent_show\<close> of
  the episode is a promise, here one that is rejected with a \<^verbatim>\<open>TypeError\<close>; it is
  neither a Show record nor \<^verbatim>\<open>null\<close>.
\<close>

theorem parent_show_dangling_counterexample:
  "fst (find_path dangling_driver example_args) =
     Inr [\<lparr>person = properties person1, relationship = r_properties (cast_edge 10 30),
           project = [(''episode_id'', JInteger 5), (''tv_show_id'', JInteger 9),
                      (''parent_show'', JPromise (Inl TypeError))]\<rparr>,
          \<lparr>person = properties person2, relationship = r_properties (crew_edge 11 30),
           project = [(''episode_id'', JInteger 5), (''tv_show_id'', JInteger 9),
                      (''parent_show'', JPromise (Inl TypeError))]\<rparr>]"
  by (simp add: find_path_def example_args_def build_query_no_filters fixed_driver_def
      dangling_driver_def episode_path_def episode1_def attach_parent_show_def hasOwnProperty_def
      parent_show_promise_def Let_def)

subsection \<open>A traversal without a record\<close>

text \<open>
  C10: when the traversal finds no path, the caller is to get a "no path" signal and no
  error. The code reads \<^verbatim>\<open>res.records[0]\<close> without looking at the number of records:
  on a result without a record \<^verbatim>\<open>find_path\<close> fails with a \<^verbatim>\<open>TypeError\<close>, after it has
  submitted the traversal.
\<close>

theorem find_path_no_record_fails:
  "find_path no_path_driver example_args = (Inl TypeError, [match_clause 1 2 @ '' RETURN p''])"
  by (simp add: find_path_def example_args_def build_query_no_filters no_path_driver_def
      fixed_driver_def)

end
